theory Spec2Isabelle
  imports Complex_Main "HOL-Library.Word" "HOL-Library.AList"
begin

section \<open>Data model\<close>

text \<open>
  The shared types of the client and the relay server.  A JavaScript \<^verbatim>\<open>number\<close> that
  carries a coordinate or a width is idealised as a real; identifiers, colours and names
  are strings.  Field names follow the source, with a prefix where two interfaces use
  the same name (\<^verbatim>\<open>id\<close>, \<^verbatim>\<open>color\<close>, \<^verbatim>\<open>width\<close>, \<^verbatim>\<open>type\<close>, \<^verbatim>\<open>x\<close>, \<^verbatim>\<open>y\<close>).
\<close>

record Point =
  px :: real
  py :: real

datatype StrokeTool = brush | pencil | eraser

record DrawStroke =
  points :: "Point list"
  stroke_color :: string
  stroke_width :: real
  tool :: StrokeTool

datatype ShapeType = rect | circle | triangle

record DrawShape =
  shape_type :: ShapeType
  startPoint :: Point
  endPoint :: Point
  shape_color :: string
  shape_width :: real
  isFilled :: bool

record FillAction =
  point :: Point
  fill_color :: string

datatype ActionType = stroke | shape | fill | clear

text \<open>\<^verbatim>\<open>data: DrawStroke | DrawShape | FillAction | null\<close>: the union is not discriminated
  by the type system, so the tag \<^verbatim>\<open>type\<close> and the payload are independent fields.\<close>

datatype ActionData = StrokeData DrawStroke | ShapeData DrawShape | FillData FillAction

record CanvasAction =
  action_id :: string
  action_type :: ActionType
  action_data :: "ActionData option"
  action_userId :: string
  timestamp :: nat

record User =
  user_id :: string
  username :: string
  isHost :: bool
  user_color :: string

record DrawLine =
  prevPoint :: "Point option"
  currentPoint :: Point
  line_color :: string
  line_width :: real

record ChatMessage =
  chat_id :: string
  chat_userId :: string
  chat_username :: string
  chat_text :: string
  chat_timestamp :: nat
  chat_color :: string

record CursorPosition =
  cursor_userId :: string
  cursor_x :: real
  cursor_y :: real
  cursor_username :: "string option"
  cursor_color :: string

section \<open>The relay server\<close>

text \<open>\<^verbatim>\<open>// Room structure: { users: User[], history: CanvasAction[], redoStack: CanvasAction[] }\<close>\<close>

record Room =
  users :: "User list"
  history :: "CanvasAction list"
  redoStack :: "CanvasAction list"

text \<open>
  \<^verbatim>\<open>const rooms = new Map()\<close>: a JavaScript \<^verbatim>\<open>Map\<close> keeps its keys in insertion order,
  \<^verbatim>\<open>set\<close> on a present key keeps the key's place, \<^verbatim>\<open>delete\<close> removes the entry.  An
  association list with \<^const>\<open>AList.update\<close> and \<^const>\<open>AList.delete\<close> behaves the same way.
\<close>

type_synonym server = "(string \<times> Room) list"

text \<open>What a handler sends: the socket.io calls, in the order the handler makes them.\<close>

datatype target =
  ToSocket string            \<comment> \<open>\<^verbatim>\<open>socket.emit\<close>, \<^verbatim>\<open>targetSocket.emit\<close>\<close>
  | ToRoom string            \<comment> \<open>\<^verbatim>\<open>io.to(roomId).emit\<close>: everyone in the room\<close>
  | ToOthers string string   \<comment> \<open>\<^verbatim>\<open>socket.to(roomId).emit\<close>: the room but the sender\<close>

datatype message =
  room_joined string "User list"
  | error_msg string
  | user_joined User
  | room_updated "User list"
  | user_left string
  | user_kicked
  | game_started string
  | draw_line DrawLine
  | history_action CanvasAction
  | history_sync "CanvasAction list"
  | cursor_move CursorPosition
  | chat_message ChatMessage

datatype effect =
  SocketJoin string string     \<comment> \<open>\<^verbatim>\<open>socket.join(roomId)\<close>\<close>
  | SocketLeave string string  \<comment> \<open>\<^verbatim>\<open>socket.leave(roomId)\<close>\<close>
  | Emit target message

fun findIndex :: "('a \<Rightarrow> bool) \<Rightarrow> 'a list \<Rightarrow> nat option" where
  "findIndex P [] = None"
| "findIndex P (u # us) = (if P u then Some 0 else map_option Suc (findIndex P us))"

definition splice1 :: "nat \<Rightarrow> 'a list \<Rightarrow> 'a list" where
  \<comment> \<open>\<^verbatim>\<open>xs.splice(index, 1)\<close>\<close>
  "splice1 index xs = take index xs @ drop (Suc index) xs"

definition create_room :: "string \<Rightarrow> string \<Rightarrow> string \<Rightarrow> string \<Rightarrow> server \<Rightarrow> server \<times> effect list" where
  \<comment> \<open>\<open>roomId\<close> and \<open>col\<close> are the values the two \<^verbatim>\<open>Math.random()\<close> calls produce\<close>
  "create_room sid name roomId col rooms =
     (let user = \<lparr>user_id = sid, username = name, isHost = True, user_color = col\<rparr>
      in (AList.update roomId \<lparr>users = [user], history = [], redoStack = []\<rparr> rooms,
          [SocketJoin sid roomId, Emit (ToSocket sid) (room_joined roomId [user])]))"

definition join_room :: "string \<Rightarrow> string \<Rightarrow> string \<Rightarrow> string \<Rightarrow> server \<Rightarrow> server \<times> effect list" where
  "join_room sid roomId name col rooms =
     (case map_of rooms roomId of
        None \<Rightarrow> (rooms, [Emit (ToSocket sid) (error_msg ''Room not found'')])
      | Some room \<Rightarrow>
          let user = \<lparr>user_id = sid, username = name, isHost = False, user_color = col\<rparr>;
              room' = room\<lparr>users := users room @ [user]\<rparr>
          in (AList.update roomId room' rooms,
              [SocketJoin sid roomId,
               Emit (ToOthers sid roomId) (user_joined user),
               Emit (ToSocket sid) (room_joined roomId (users room')),
               Emit (ToSocket sid) (history_sync (history room'))]))"

definition handleLeave :: "string \<Rightarrow> string \<Rightarrow> server \<Rightarrow> server \<times> effect list" where
  "handleLeave roomId socketId rooms =
     (case map_of rooms roomId of
        None \<Rightarrow> (rooms, [])
      | Some room \<Rightarrow>
          (case findIndex (\<lambda>u. user_id u = socketId) (users room) of
             None \<Rightarrow> (rooms, [])
           | Some index \<Rightarrow>
               let wasHost = isHost (users room ! index);
                   us = splice1 index (users room);
                   migrate = wasHost \<and> length us > 0;
                   us' = (if migrate then us[0 := (us ! 0)\<lparr>isHost := True\<rparr>] else us);
                   notify = (if migrate then [Emit (ToRoom roomId) (room_updated us')] else [])
               in if length us' = 0
                  then (AList.delete roomId rooms, notify)
                  else (AList.update roomId (room\<lparr>users := us'\<rparr>) rooms,
                        notify @ [Emit (ToRoom roomId) (user_left socketId)])))"

definition leave_room :: "string \<Rightarrow> string \<Rightarrow> server \<Rightarrow> server \<times> effect list" where
  "leave_room sid roomId rooms =
     (let (rooms', es) = handleLeave roomId sid rooms in (rooms', SocketLeave sid roomId # es))"

definition kick_user :: "string \<Rightarrow> string \<Rightarrow> string \<Rightarrow> bool \<Rightarrow> server \<Rightarrow> server \<times> effect list" where
  \<comment> \<open>\<open>targetSocket\<close>: whether \<^verbatim>\<open>io.sockets.sockets.get(userId)\<close> finds a connected socket\<close>
  "kick_user sid roomId userId targetSocket rooms =
     (case map_of rooms roomId of
        None \<Rightarrow> (rooms, [])
      | Some room \<Rightarrow>
          (case find (\<lambda>u. user_id u = sid) (users room) of
             None \<Rightarrow> (rooms, [])
           | Some requester \<Rightarrow>
               if \<not> isHost requester then (rooms, [])
               else let (rooms', es) = handleLeave roomId userId rooms
                    in (rooms',
                        (if targetSocket
                         then [SocketLeave userId roomId, Emit (ToSocket userId) user_kicked]
                         else []) @ es)))"

definition start_game :: "string \<Rightarrow> server \<Rightarrow> server \<times> effect list" where
  "start_game roomId rooms = (rooms, [Emit (ToRoom roomId) (game_started roomId)])"

definition relay_draw_line :: "string \<Rightarrow> string \<Rightarrow> DrawLine \<Rightarrow> server \<Rightarrow> server \<times> effect list" where
  "relay_draw_line sid roomId d rooms = (rooms, [Emit (ToOthers sid roomId) (draw_line d)])"

definition addToHistory :: "string \<Rightarrow> CanvasAction \<Rightarrow> server \<Rightarrow> server" where
  "addToHistory roomId action rooms =
     (case map_of rooms roomId of
        None \<Rightarrow> rooms
      | Some room \<Rightarrow>
          let h = history room @ [action];
              h' = (if length h > 500 then tl h else h)
          in AList.update roomId (room\<lparr>history := h', redoStack := []\<rparr>) rooms)"

definition submit :: "string \<Rightarrow> CanvasAction \<Rightarrow> server \<Rightarrow> server \<times> effect list" where
  \<comment> \<open>the handlers of \<^verbatim>\<open>draw_stroke\<close>, \<^verbatim>\<open>draw_shape\<close>, \<^verbatim>\<open>draw_text\<close>, \<^verbatim>\<open>fill_canvas\<close> and
      \<^verbatim>\<open>clear_canvas\<close> have the same body\<close>
  "submit roomId action rooms =
     (addToHistory roomId action rooms, [Emit (ToRoom roomId) (history_action action)])"

definition undo :: "string \<Rightarrow> server \<Rightarrow> server \<times> effect list" where
  "undo roomId rooms =
     (case map_of rooms roomId of
        None \<Rightarrow> (rooms, [])
      | Some room \<Rightarrow>
          if length (history room) = 0 then (rooms, [])
          else let action = last (history room);
                   room' = room\<lparr>history := butlast (history room),
                                redoStack := redoStack room @ [action]\<rparr>
               in (AList.update roomId room' rooms,
                   [Emit (ToRoom roomId) (history_sync (history room'))]))"

definition redo :: "string \<Rightarrow> server \<Rightarrow> server \<times> effect list" where
  "redo roomId rooms =
     (case map_of rooms roomId of
        None \<Rightarrow> (rooms, [])
      | Some room \<Rightarrow>
          if length (redoStack room) = 0 then (rooms, [])
          else let action = last (redoStack room);
                   room' = room\<lparr>redoStack := butlast (redoStack room),
                                history := history room @ [action]\<rparr>
               in (AList.update roomId room' rooms,
                   [Emit (ToRoom roomId) (history_sync (history room'))]))"

definition relay_cursor_move :: "string \<Rightarrow> string \<Rightarrow> CursorPosition \<Rightarrow> server \<Rightarrow> server \<times> effect list" where
  "relay_cursor_move sid roomId d rooms = (rooms, [Emit (ToOthers sid roomId) (cursor_move d)])"

definition relay_chat_message :: "string \<Rightarrow> ChatMessage \<Rightarrow> server \<Rightarrow> server \<times> effect list" where
  "relay_chat_message roomId m rooms = (rooms, [Emit (ToRoom roomId) (chat_message m)])"

definition disconnect_room :: "string \<Rightarrow> string \<Rightarrow> server \<times> effect list \<Rightarrow> server \<times> effect list" where
  \<comment> \<open>the body of \<^verbatim>\<open>rooms.forEach((room, roomId) => ...)\<close>\<close>
  "disconnect_room sid roomId acc =
     (case map_of (fst acc) roomId of
        None \<Rightarrow> acc
      | Some room \<Rightarrow>
          (case find (\<lambda>u. user_id u = sid) (users room) of
             None \<Rightarrow> acc
           | Some user \<Rightarrow>
               let (rooms', es) = handleLeave roomId sid (fst acc) in (rooms', snd acc @ es)))"

definition disconnect :: "string \<Rightarrow> server \<Rightarrow> server \<times> effect list" where
  "disconnect sid rooms = fold (disconnect_room sid) (map fst rooms) (rooms, [])"

text \<open>The events a socket can send, and the dispatch to their handlers.\<close>

datatype request =
  CreateRoom string string string    \<comment> \<open>user name; the random room id and colour\<close>
  | JoinRoom string string string    \<comment> \<open>room id, user name; the random colour\<close>
  | LeaveRoom string
  | KickUser string string bool
  | StartGame string
  | DrawLine string DrawLine
  | Submit string CanvasAction
  | Undo string
  | Redo string
  | CursorMove string CursorPosition
  | ChatMessage string ChatMessage
  | Disconnect

fun handle :: "string \<Rightarrow> request \<Rightarrow> server \<Rightarrow> server \<times> effect list" where
  "handle sid (CreateRoom name roomId col) rooms = create_room sid name roomId col rooms"
| "handle sid (JoinRoom roomId name col) rooms = join_room sid roomId name col rooms"
| "handle sid (LeaveRoom roomId) rooms = leave_room sid roomId rooms"
| "handle sid (KickUser roomId userId targetSocket) rooms = kick_user sid roomId userId targetSocket rooms"
| "handle sid (StartGame roomId) rooms = start_game roomId rooms"
| "handle sid (DrawLine roomId d) rooms = relay_draw_line sid roomId d rooms"
| "handle sid (Submit roomId action) rooms = submit roomId action rooms"
| "handle sid (Undo roomId) rooms = undo roomId rooms"
| "handle sid (Redo roomId) rooms = redo roomId rooms"
| "handle sid (CursorMove roomId d) rooms = relay_cursor_move sid roomId d rooms"
| "handle sid (ChatMessage roomId m) rooms = relay_chat_message roomId m rooms"
| "handle sid Disconnect rooms = disconnect sid rooms"

fun run :: "(string \<times> request) list \<Rightarrow> server \<Rightarrow> server" where
  \<comment> \<open>the server processes one event at a time; the state starts as the empty map\<close>
  "run [] rooms = rooms"
| "run ((sid, r) # rs) rooms = run rs (fst (handle sid r rooms))"

text \<open>
  The invariant of the session registry: a room that is in the map has members, and
  exactly one of them carries the host flag.
\<close>

definition room_ok :: "Room \<Rightarrow> bool" where
  "room_ok room = (users room \<noteq> [] \<and> length (filter isHost (users room)) = 1)"

definition host_inv :: "server \<Rightarrow> bool" where
  "host_inv rooms = (\<forall>(roomId, room) \<in> set rooms. room_ok room)"

text \<open>
  The bound on what a room retains: the history and the redo stack together hold at
  most 500 actions.
\<close>

definition room_capped :: "Room \<Rightarrow> bool" where
  "room_capped room = (length (history room) + length (redoStack room) \<le> 500)"

definition cap_inv :: "server \<Rightarrow> bool" where
  "cap_inv rooms = (\<forall>(roomId, room) \<in> set rooms. room_capped room)"

text \<open>
  The room after the socket \<open>sid\<close> has left it: the first entry of that socket is taken
  out of the member list, the first member that remains is made host when the entry was
  the host's, and no room is left (\<open>None\<close>) when no member remains.
\<close>

definition afterLeave :: "string \<Rightarrow> Room \<Rightarrow> Room option" where
  "afterLeave sid room =
     (case findIndex (\<lambda>u. user_id u = sid) (users room) of
        None \<Rightarrow> Some room
      | Some i \<Rightarrow>
          (case splice1 i (users room) of
             [] \<Rightarrow> None
           | b # rest \<Rightarrow>
               Some (room\<lparr>users := (if isHost (users room ! i) then b\<lparr>isHost := True\<rparr> else b) # rest\<rparr>)))"

section \<open>The local fallback bus\<close>

text \<open>The mock state of \<^verbatim>\<open>SocketService\<close> and its history helper.\<close>

record MockState =
  mockHistory :: "CanvasAction list"
  mockRedoStack :: "CanvasAction list"
  mockUsers :: "User list"

definition mockAddToHistory :: "CanvasAction \<Rightarrow> MockState \<Rightarrow> MockState" where
  "mockAddToHistory action m =
     (let h = mockHistory m @ [action];
          h' = (if length h > 500 then tl h else h)
      in m\<lparr>mockHistory := h', mockRedoStack := []\<rparr>)"

section \<open>The canvas\<close>

text \<open>
  The client paints through the browser's \<^verbatim>\<open>CanvasRenderingContext2D\<close>.  The model keeps
  what the code reads and writes of it: the bitmap (RGBA bytes, row by row, as
  \<^verbatim>\<open>getImageData\<close> returns them), the pen state that \<^verbatim>\<open>stroke\<close> and \<^verbatim>\<open>strokeRect\<close> read, and
  the current path.  The transformation is the identity and there is no clip (the code
  sets neither); \<^verbatim>\<open>getImageData\<close> and \<^verbatim>\<open>putImageData\<close> read and write the bitmap as it is.
  What the browser computes is a parameter: whether a string is a colour, the computed
  form of a colour (\<^verbatim>\<open>getComputedStyle(div).color\<close>), and the pixels that stroking an outline
  with a pen changes.
\<close>

type_synonym byte = "8 word"

datatype PathOp =
  MoveTo real real
  | LineTo real real
  | Arc real real real real real   \<comment> \<open>centre, radius, start angle, end angle\<close>
  | ClosePath

datatype Outline =
  RectOutline real real real real  \<comment> \<open>\<^verbatim>\<open>strokeRect(x, y, w, h)\<close>\<close>
  | PathOutline "PathOp list"      \<comment> \<open>\<^verbatim>\<open>stroke()\<close> of the current path\<close>

record Pen =
  pen_strokeStyle :: string
  pen_lineWidth :: real
  pen_lineCap :: string
  pen_lineJoin :: string

record Browser =
  validColor :: "string \<Rightarrow> bool"
  computedColor :: "string \<Rightarrow> string"
  strokeOutline :: "Pen \<Rightarrow> Outline \<Rightarrow> nat \<Rightarrow> nat \<Rightarrow> byte list \<Rightarrow> byte list"

record Canvas =
  canvas_width :: nat
  canvas_height :: nat
  bitmap :: "byte list"
  strokeStyle :: string
  lineWidth :: real
  lineCap :: string
  lineJoin :: string
  path :: "PathOp list"

definition penOf :: "Canvas \<Rightarrow> Pen" where
  "penOf c = \<lparr>pen_strokeStyle = strokeStyle c, pen_lineWidth = lineWidth c,
              pen_lineCap = lineCap c, pen_lineJoin = lineJoin c\<rparr>"

definition set_strokeStyle :: "Browser \<Rightarrow> string \<Rightarrow> Canvas \<Rightarrow> Canvas" where
  \<comment> \<open>an assignment of a string that is not a colour is ignored\<close>
  "set_strokeStyle B v c = (if validColor B v then c\<lparr>strokeStyle := v\<rparr> else c)"

definition set_lineWidth :: "real \<Rightarrow> Canvas \<Rightarrow> Canvas" where
  \<comment> \<open>an assignment of zero or of a negative width is ignored\<close>
  "set_lineWidth v c = (if 0 < v then c\<lparr>lineWidth := v\<rparr> else c)"

definition ctx_beginPath :: "Canvas \<Rightarrow> Canvas" where
  "ctx_beginPath c = c\<lparr>path := []\<rparr>"

definition ctx_moveTo :: "real \<Rightarrow> real \<Rightarrow> Canvas \<Rightarrow> Canvas" where
  "ctx_moveTo x y c = c\<lparr>path := path c @ [MoveTo x y]\<rparr>"

definition ctx_lineTo :: "real \<Rightarrow> real \<Rightarrow> Canvas \<Rightarrow> Canvas" where
  "ctx_lineTo x y c = c\<lparr>path := path c @ [LineTo x y]\<rparr>"

definition ctx_arc :: "real \<Rightarrow> real \<Rightarrow> real \<Rightarrow> real \<Rightarrow> real \<Rightarrow> Canvas \<Rightarrow> Canvas" where
  "ctx_arc x y r a0 a1 c = c\<lparr>path := path c @ [Arc x y r a0 a1]\<rparr>"

definition ctx_closePath :: "Canvas \<Rightarrow> Canvas" where
  "ctx_closePath c = c\<lparr>path := path c @ [ClosePath]\<rparr>"

definition ctx_stroke :: "Browser \<Rightarrow> Canvas \<Rightarrow> Canvas" where
  "ctx_stroke B c =
     c\<lparr>bitmap := strokeOutline B (penOf c) (PathOutline (path c))
                    (canvas_width c) (canvas_height c) (bitmap c)\<rparr>"

definition ctx_strokeRect :: "Browser \<Rightarrow> real \<Rightarrow> real \<Rightarrow> real \<Rightarrow> real \<Rightarrow> Canvas \<Rightarrow> Canvas" where
  "ctx_strokeRect B x y w h c =
     c\<lparr>bitmap := strokeOutline B (penOf c) (RectOutline x y w h)
                    (canvas_width c) (canvas_height c) (bitmap c)\<rparr>"

definition clearCanvas :: "Canvas \<Rightarrow> Canvas" where
  \<comment> \<open>\<^verbatim>\<open>ctx.clearRect(0, 0, canvas.width, canvas.height)\<close>: every pixel transparent black\<close>
  "clearCanvas c = c\<lparr>bitmap := replicate (4 * canvas_width c * canvas_height c) 0\<rparr>"

subsection \<open>drawStroke and drawShape\<close>

definition drawStroke :: "Browser \<Rightarrow> Canvas \<Rightarrow> DrawStroke \<Rightarrow> Canvas" where
  "drawStroke B c d =
     (if length (points d) < 2 then c
      else let c1 = ctx_beginPath c;
               c2 = c1\<lparr>lineCap := ''round''\<rparr>;
               c3 = c2\<lparr>lineJoin := ''round''\<rparr>;
               c4 = set_strokeStyle B (stroke_color d) c3;
               c5 = set_lineWidth (stroke_width d) c4;
               c6 = ctx_moveTo (px (points d ! 0)) (py (points d ! 0)) c5;
               c7 = fold (\<lambda>p. ctx_lineTo (px p) (py p)) (tl (points d)) c6
           in ctx_stroke B c7)"

definition drawShape :: "Browser \<Rightarrow> Canvas \<Rightarrow> DrawShape \<Rightarrow> Canvas" where
  "drawShape B c d =
     (let c1 = set_strokeStyle B (shape_color d) c;
          c2 = set_lineWidth (shape_width d) c1;
          c3 = ctx_beginPath c2;
          w = px (endPoint d) - px (startPoint d);
          h = py (endPoint d) - py (startPoint d)
      in case shape_type d of
           rect \<Rightarrow> ctx_strokeRect B (px (startPoint d)) (py (startPoint d)) w h c3
         | circle \<Rightarrow>
             let radius = sqrt (w * w + h * h)
             in ctx_stroke B (ctx_arc (px (startPoint d)) (py (startPoint d)) radius 0 (2 * pi) c3)
         | triangle \<Rightarrow>
             ctx_stroke B
               (ctx_closePath
                 (ctx_lineTo (px (startPoint d) + w) (py (startPoint d) + h)
                   (ctx_lineTo (px (startPoint d)) (py (startPoint d) + h)
                     (ctx_moveTo (px (startPoint d) + w / 2) (py (startPoint d)) c3)))))"

text \<open>The outline that the branch of \<open>drawShape\<close> for the shape's type builds and strokes.\<close>

definition shapeOutline :: "DrawShape \<Rightarrow> Outline" where
  "shapeOutline d =
     (let w = px (endPoint d) - px (startPoint d);
          h = py (endPoint d) - py (startPoint d)
      in case shape_type d of
           rect \<Rightarrow> RectOutline (px (startPoint d)) (py (startPoint d)) w h
         | circle \<Rightarrow>
             PathOutline [Arc (px (startPoint d)) (py (startPoint d)) (sqrt (w * w + h * h)) 0 (2 * pi)]
         | triangle \<Rightarrow>
             PathOutline [MoveTo (px (startPoint d) + w / 2) (py (startPoint d)),
                          LineTo (px (startPoint d)) (py (startPoint d) + h),
                          LineTo (px (startPoint d) + w) (py (startPoint d) + h),
                          ClosePath])"

text \<open>
  The corner points of an outline: \<^verbatim>\<open>strokeRect(x, y, w, h)\<close> strokes the closed path through
  \<open>(x, y)\<close>, \<open>(x + w, y)\<close>, \<open>(x + w, y + h)\<close>, \<open>(x, y + h)\<close>; a path has the points of its
  \<^verbatim>\<open>moveTo\<close> and \<^verbatim>\<open>lineTo\<close> calls.
\<close>

fun opVertices :: "PathOp \<Rightarrow> (real \<times> real) set" where
  "opVertices (MoveTo x y) = {(x, y)}"
| "opVertices (LineTo x y) = {(x, y)}"
| "opVertices (Arc x y r a0 a1) = {}"
| "opVertices ClosePath = {}"

fun vertices :: "Outline \<Rightarrow> (real \<times> real) set" where
  "vertices (RectOutline x y w h) = {(x, y), (x + w, y), (x + w, y + h), (x, y + h)}"
| "vertices (PathOutline ops) = (\<Union>p \<in> set ops. opVertices p)"

text \<open>
  The shapes as the specification words them, for comparison with \<open>shapeOutline\<close>: the
  bounding box of the start and the end point (the canvas's y axis points down, so the
  top edge has the smaller y), the corners of that box, and the triangle with its apex
  at the horizontal midpoint of the top edge and its base along the bottom edge.
\<close>

definition spec_left :: "Point \<Rightarrow> Point \<Rightarrow> real" where
  "spec_left s e = min (px s) (px e)"

definition spec_right :: "Point \<Rightarrow> Point \<Rightarrow> real" where
  "spec_right s e = max (px s) (px e)"

definition spec_top :: "Point \<Rightarrow> Point \<Rightarrow> real" where
  "spec_top s e = min (py s) (py e)"

definition spec_bottom :: "Point \<Rightarrow> Point \<Rightarrow> real" where
  "spec_bottom s e = max (py s) (py e)"

definition spec_box_corners :: "Point \<Rightarrow> Point \<Rightarrow> (real \<times> real) set" where
  "spec_box_corners s e =
     {(spec_left s e, spec_top s e), (spec_right s e, spec_top s e),
      (spec_right s e, spec_bottom s e), (spec_left s e, spec_bottom s e)}"

definition spec_triangle_corners :: "Point \<Rightarrow> Point \<Rightarrow> (real \<times> real) set" where
  "spec_triangle_corners s e =
     {((spec_left s e + spec_right s e) / 2, spec_top s e),
      (spec_left s e, spec_bottom s e), (spec_right s e, spec_bottom s e)}"

subsection \<open>floodFill\<close>

text \<open>
  \<^verbatim>\<open>rgbaStr.match(/\d+/g)?.map(Number)\<close>: the maximal runs of decimal digits of the computed
  colour, each read as a number; \<^verbatim>\<open>null\<close> when there is none.
\<close>

definition isDigit :: "char \<Rightarrow> bool" where
  "isDigit ch = (ch \<in> set ''0123456789'')"

fun digitRuns :: "string \<Rightarrow> string \<Rightarrow> string list" where
  \<comment> \<open>the first argument is the run of digits read so far\<close>
  "digitRuns acc [] = (if acc = [] then [] else [acc])"
| "digitRuns acc (ch # cs) =
     (if isDigit ch then digitRuns (acc @ [ch]) cs
      else (if acc = [] then [] else [acc]) @ digitRuns [] cs)"

definition Number :: "string \<Rightarrow> nat" where
  "Number ds = foldl (\<lambda>n ch. 10 * n + (of_char ch - 48)) 0 ds"

definition matchDigits :: "string \<Rightarrow> nat list option" where
  "matchDigits s = (case digitRuns [] s of [] \<Rightarrow> None | r # rs \<Rightarrow> Some (map Number (r # rs)))"

definition element :: "'a list \<Rightarrow> nat \<Rightarrow> 'a option" where
  \<comment> \<open>array destructuring: a missing element is \<^verbatim>\<open>undefined\<close>\<close>
  "element xs i = (if i < length xs then Some (xs ! i) else None)"

text \<open>
  The \<^verbatim>\<open>Uint8ClampedArray\<close> of the image data.  Reading outside the array gives
  \<^verbatim>\<open>undefined\<close>; a write outside is ignored; a stored number is clamped to \<open>0..255\<close>
  (\<^verbatim>\<open>undefined\<close> is stored as 0).
\<close>

definition rd :: "byte list \<Rightarrow> int \<Rightarrow> byte option" where
  "rd data i = (if 0 \<le> i \<and> i < int (length data) then Some (data ! nat i) else None)"

definition clamp8 :: "nat option \<Rightarrow> byte" where
  "clamp8 v = (case v of None \<Rightarrow> 0 | Some n \<Rightarrow> if n > 255 then 255 else of_nat n)"

definition wr :: "byte list \<Rightarrow> int \<Rightarrow> nat option \<Rightarrow> byte list" where
  "wr data i v = (if 0 \<le> i \<and> i < int (length data) then data[nat i := clamp8 v] else data)"

definition sameNumber :: "nat option \<Rightarrow> byte option \<Rightarrow> bool" where
  \<comment> \<open>\<^verbatim>\<open>fillR === startR\<close>: a parsed number against a value read from the array\<close>
  "sameNumber v b = (v = map_option unat b)"

type_synonym rgba = "byte option \<times> byte option \<times> byte option \<times> byte option"
type_synonym paint = "nat option \<times> nat option \<times> nat option \<times> nat option"

definition pixelAt :: "byte list \<Rightarrow> int \<Rightarrow> rgba" where
  "pixelAt data pos = (rd data pos, rd data (pos + 1), rd data (pos + 2), rd data (pos + 3))"

definition setPixel :: "byte list \<Rightarrow> int \<Rightarrow> paint \<Rightarrow> byte list" where
  "setPixel data pos p =
     (case p of (fillR, fillG, fillB, fillA) \<Rightarrow>
        wr (wr (wr (wr data pos fillR) (pos + 1) fillG) (pos + 2) fillB) (pos + 3) fillA)"

text \<open>
  The \<^verbatim>\<open>while (stack.length)\<close> loop.  The head of the list is the top of the stack, so the
  four pushes appear in reverse.  The loop may run forever: \<open>None\<close> is "does not return".
\<close>

partial_function (option) fillLoop ::
  "int \<Rightarrow> int \<Rightarrow> rgba \<Rightarrow> paint \<Rightarrow> (int \<times> int) list \<Rightarrow> byte list \<Rightarrow> byte list option" where
  "fillLoop W H start p stack data =
     (case stack of
        [] \<Rightarrow> Some data
      | (cx, cy) # rest \<Rightarrow>
          let pos = (cy * W + cx) * 4 in
          if cx < 0 \<or> cx \<ge> W \<or> cy < 0 \<or> cy \<ge> H then fillLoop W H start p rest data
          else if pixelAt data pos = start
          then fillLoop W H start p
                 ((cx, cy - 1) # (cx, cy + 1) # (cx - 1, cy) # (cx + 1, cy) # rest)
                 (setPixel data pos p)
          else fillLoop W H start p rest data)"

declare fillLoop.simps [code]

datatype completion = Normal | Thrown string

definition floodFill :: "Browser \<Rightarrow> Canvas \<Rightarrow> real \<Rightarrow> real \<Rightarrow> string \<Rightarrow> (completion \<times> Canvas) option" where
  "floodFill B c x y fillColor =
     (case matchDigits (computedColor B fillColor) of
        None \<Rightarrow> Some (Normal, c)
      | Some rgba \<Rightarrow>
          let fillR = element rgba 0; fillG = element rgba 1; fillB = element rgba 2;
              fillA = Some 255
          in if canvas_width c = 0 \<or> canvas_height c = 0
             then Some (Thrown ''IndexSizeError'', c)   \<comment> \<open>\<^verbatim>\<open>getImageData\<close> of an empty rectangle\<close>
             else
               let data = bitmap c;
                   W = int (canvas_width c); H = int (canvas_height c);
                   stack = [(\<lfloor>x\<rfloor>, \<lfloor>y\<rfloor>)];
                   startPos = (\<lfloor>y\<rfloor> * W + \<lfloor>x\<rfloor>) * 4;
                   start = pixelAt data startPos
               in case start of (startR, startG, startB, startA) \<Rightarrow>
                    if sameNumber fillR startR \<and> sameNumber fillG startG
                       \<and> sameNumber fillB startB \<and> sameNumber fillA startA
                    then Some (Normal, c)
                    else map_option (\<lambda>data'. (Normal, c\<lparr>bitmap := data'\<rparr>))
                           (fillLoop W H start (fillR, fillG, fillB, fillA) stack data))"

subsection \<open>redrawCanvas\<close>

text \<open>
  One round of the \<^verbatim>\<open>forEach\<close> body.  The casts \<^verbatim>\<open>action.data as DrawStroke\<close> (and so on) are
  unchecked: a payload of another interface makes the body read a property of
  \<^verbatim>\<open>undefined\<close>, which throws a \<^verbatim>\<open>TypeError\<close>, in \<open>drawShape\<close> after the pen has been set.
\<close>

definition applyAction :: "Browser \<Rightarrow> CanvasAction \<Rightarrow> Canvas \<Rightarrow> (completion \<times> Canvas) option" where
  "applyAction B action c =
     (if action_type action = clear then Some (Normal, clearCanvas c)
      else case action_data action of
        None \<Rightarrow> Some (Normal, c)
      | Some d \<Rightarrow>
          (case action_type action of
             stroke \<Rightarrow>
               (case d of
                  StrokeData s \<Rightarrow> Some (Normal, drawStroke B c s)
                | _ \<Rightarrow> Some (Thrown ''TypeError'', c))
           | shape \<Rightarrow>
               (case d of
                  ShapeData s \<Rightarrow> Some (Normal, drawShape B c s)
                | StrokeData s \<Rightarrow>
                    Some (Thrown ''TypeError'',
                      ctx_beginPath (set_lineWidth (stroke_width s) (set_strokeStyle B (stroke_color s) c)))
                | FillData f \<Rightarrow>
                    Some (Thrown ''TypeError'', ctx_beginPath (set_strokeStyle B (fill_color f) c)))
           | fill \<Rightarrow>
               (case d of
                  FillData f \<Rightarrow> floodFill B c (px (point f)) (py (point f)) (fill_color f)
                | _ \<Rightarrow> Some (Thrown ''TypeError'', c))
           | clear \<Rightarrow> Some (Normal, clearCanvas c)))"

fun replay :: "Browser \<Rightarrow> CanvasAction list \<Rightarrow> Canvas \<Rightarrow> (completion \<times> Canvas) option" where
  \<comment> \<open>\<^verbatim>\<open>actions.forEach\<close>: an exception ends the replay, a loop that never ends never returns\<close>
  "replay B [] c = Some (Normal, c)"
| "replay B (action # actions) c =
     (case applyAction B action c of
        None \<Rightarrow> None
      | Some (Thrown e, c') \<Rightarrow> Some (Thrown e, c')
      | Some (Normal, c') \<Rightarrow> replay B actions c')"

definition redrawCanvas :: "Browser \<Rightarrow> CanvasAction list \<Rightarrow> Canvas \<Rightarrow> (completion \<times> Canvas) option" where
  "redrawCanvas B actions c = replay B actions (clearCanvas c)"

subsection \<open>The region that a stroke paints\<close>

text \<open>
  Which pixels \<^verbatim>\<open>stroke()\<close> and \<^verbatim>\<open>strokeRect()\<close> change is the browser's business, but the
  HTML standard fixes the region that they fill ("trace a path"): lines of length zero
  are dropped; every other line becomes a rectangle of the pen's width around it; two
  consecutive lines get a join at their common point; the two ends of an open subpath
  get a cap.  A \<^verbatim>\<open>round\<close> join or cap is a disc; a \<^verbatim>\<open>miter\<close> join is the area between the outer
  edges of the two rectangles up to the point where they meet, unless that point is
  further from the corner than ten times half the width (the default miter limit),
  and then a bevel, the triangle between the corner and the two outer corners of the
  rectangles; a \<^verbatim>\<open>square\<close> cap extends the line by half the width, a \<^verbatim>\<open>butt\<close> cap adds nothing.
  Points are pairs of reals, and \<open>hw\<close> is half the line width.
\<close>

type_synonym vec = "real \<times> real"

definition vsub :: "vec \<Rightarrow> vec \<Rightarrow> vec" where
  "vsub a b = (fst a - fst b, snd a - snd b)"

definition dot :: "vec \<Rightarrow> vec \<Rightarrow> real" where
  "dot a b = fst a * fst b + snd a * snd b"

definition cross :: "vec \<Rightarrow> vec \<Rightarrow> real" where
  "cross a b = fst a * snd b - snd a * fst b"

definition inBand :: "real \<Rightarrow> vec \<Rightarrow> vec \<Rightarrow> vec \<Rightarrow> bool" where
  \<comment> \<open>the rectangle around the line from \<open>a\<close> to \<open>b\<close>\<close>
  "inBand hw a b p =
     (let d = vsub b a; q = vsub p a
      in 0 \<le> dot q d \<and> dot q d \<le> dot d d \<and> (cross d q)\<^sup>2 \<le> hw\<^sup>2 * dot d d)"

definition inDisc :: "real \<Rightarrow> vec \<Rightarrow> vec \<Rightarrow> bool" where
  "inDisc hw c p = (dot (vsub p c) (vsub p c) \<le> hw\<^sup>2)"

definition inMiter :: "real \<Rightarrow> vec \<Rightarrow> vec \<Rightarrow> vec \<Rightarrow> vec \<Rightarrow> bool" where
  \<comment> \<open>at \<open>v\<close>, between the lines from \<open>a\<close> to \<open>v\<close> and from \<open>v\<close> to \<open>b\<close>: beyond the end of the
      first rectangle, before the start of the second, within the width of both\<close>
  "inMiter hw a v b p =
     (let d1 = vsub v a; d2 = vsub b v; q = vsub p v
      in 0 \<le> dot q d1 \<and> dot q d2 \<le> 0
         \<and> (cross d1 q)\<^sup>2 \<le> hw\<^sup>2 * dot d1 d1 \<and> (cross d2 q)\<^sup>2 \<le> hw\<^sup>2 * dot d2 d2)"

definition withinMiterLimit :: "vec \<Rightarrow> vec \<Rightarrow> vec \<Rightarrow> bool" where
  \<comment> \<open>the miter is at most 10 half widths long: the cosine of the turn is at least -0.98\<close>
  "withinMiterLimit a v b =
     (let d1 = vsub v a; d2 = vsub b v
      in 0 \<le> dot d1 d2 \<or> 2500 * (dot d1 d2)\<^sup>2 \<le> 2401 * (dot d1 d1 * dot d2 d2))"

definition inBevel :: "real \<Rightarrow> vec \<Rightarrow> vec \<Rightarrow> vec \<Rightarrow> vec \<Rightarrow> bool" where
  \<comment> \<open>the triangle of \<open>v\<close> and the two outer corners \<open>v + hw * n1\<close> and \<open>v + hw * n2\<close>: the
      points \<open>v + \<alpha> * n1 + \<beta> * n2\<close> with \<open>0 \<le> \<alpha>\<close>, \<open>0 \<le> \<beta>\<close>, \<open>\<alpha> + \<beta> \<le> hw\<close>, without the square roots\<close>
  "inBevel hw a v b p =
     (let d1 = vsub v a; d2 = vsub b v; q = vsub p v;
          A = - dot q d2; B = dot q d1;
          R = hw\<^sup>2 * (cross d1 d2)\<^sup>2 - dot d1 d1 * A\<^sup>2 - dot d2 d2 * B\<^sup>2
      in cross d1 d2 \<noteq> 0 \<and> 0 \<le> A \<and> 0 \<le> B \<and> 0 \<le> R
         \<and> 4 * A\<^sup>2 * B\<^sup>2 * (dot d1 d1 * dot d2 d2) \<le> R\<^sup>2)"

definition inJoin :: "string \<Rightarrow> real \<Rightarrow> vec \<Rightarrow> vec \<Rightarrow> vec \<Rightarrow> vec \<Rightarrow> bool" where
  "inJoin join hw a v b p =
     (if join = ''round'' then inDisc hw v p
      else if join = ''miter'' \<and> withinMiterLimit a v b then inMiter hw a v b p
      else inBevel hw a v b p)"

definition inCap :: "string \<Rightarrow> real \<Rightarrow> vec \<Rightarrow> vec \<Rightarrow> vec \<Rightarrow> bool" where
  \<comment> \<open>the cap at the end \<open>b\<close> of the line from \<open>a\<close> to \<open>b\<close>\<close>
  "inCap cap hw a b p =
     (if cap = ''round'' then inDisc hw b p
      else if cap = ''square''
      then (let d = vsub b a; q = vsub p b
            in 0 \<le> dot q d \<and> (dot q d)\<^sup>2 \<le> hw\<^sup>2 * dot d d \<and> (cross d q)\<^sup>2 \<le> hw\<^sup>2 * dot d d)
      else False)"

fun edges :: "vec list \<Rightarrow> (vec \<times> vec) list" where
  "edges (a # b # ps) = (a, b) # edges (b # ps)"
| "edges ps = []"

fun corners :: "vec list \<Rightarrow> (vec \<times> vec \<times> vec) list" where
  "corners (a # v # b # ps) = (a, v, b) # corners (v # b # ps)"
| "corners ps = []"

definition strokedPath :: "Pen \<Rightarrow> bool \<Rightarrow> vec list \<Rightarrow> vec \<Rightarrow> bool" where
  \<comment> \<open>a subpath of straight lines through \<open>pts\<close>, closed or open\<close>
  "strokedPath pen isClosed pts p =
     (let hw = pen_lineWidth pen / 2;
          ps0 = remdups_adj pts;
          ps = (if isClosed \<and> hd ps0 = last ps0 then butlast ps0 else ps0)
      in if length ps < 2 then False
         else if isClosed
         then list_ex (\<lambda>(a, b). inBand hw a b p) (edges (ps @ [hd ps]))
              \<or> list_ex (\<lambda>(a, v, b). inJoin (pen_lineJoin pen) hw a v b p)
                   (corners (ps @ [hd ps, ps ! 1]))
         else list_ex (\<lambda>(a, b). inBand hw a b p) (edges ps)
              \<or> list_ex (\<lambda>(a, v, b). inJoin (pen_lineJoin pen) hw a v b p) (corners ps)
              \<or> inCap (pen_lineCap pen) hw (ps ! 1) (hd ps) p
              \<or> inCap (pen_lineCap pen) hw (last (butlast ps)) (last ps) p)"

definition strokedRect :: "Pen \<Rightarrow> real \<Rightarrow> real \<Rightarrow> real \<Rightarrow> real \<Rightarrow> vec \<Rightarrow> bool" where
  \<comment> \<open>\<^verbatim>\<open>strokeRect(x, y, w, h)\<close>: nothing when \<open>w\<close> and \<open>h\<close> are zero, one line when one of
      them is, the closed path through the four corners otherwise\<close>
  "strokedRect pen x y w h p =
     (if w = 0 \<and> h = 0 then False
      else if w = 0 \<or> h = 0 then strokedPath pen False [(x, y), (x + w, y + h)] p
      else strokedPath pen True [(x, y), (x + w, y), (x + w, y + h), (x, y + h)] p)"

definition strokedCircle :: "Pen \<Rightarrow> real \<Rightarrow> real \<Rightarrow> real \<Rightarrow> vec \<Rightarrow> bool" where
  \<comment> \<open>a full circle, an open subpath that starts and ends at \<open>(cx + r, cy)\<close>: the ring of
      the pen's width, and the two square caps there when the pen has them\<close>
  "strokedCircle pen cx cy r p =
     (let hw = pen_lineWidth pen / 2; d2 = dot (vsub p (cx, cy)) (vsub p (cx, cy))
      in 0 < r \<and>
         ((d2 \<le> (r + hw)\<^sup>2 \<and> (r \<le> hw \<or> (r - hw)\<^sup>2 \<le> d2))
          \<or> (pen_lineCap pen = ''square'' \<and> \<bar>fst p - (cx + r)\<bar> \<le> hw \<and> \<bar>snd p - cy\<bar> \<le> hw)))"

fun lineTos :: "PathOp list \<Rightarrow> vec list \<Rightarrow> (vec list \<times> bool) option" where
  "lineTos [] acc = Some (acc, False)"
| "lineTos (LineTo x y # ops) acc = lineTos ops (acc @ [(x, y)])"
| "lineTos [ClosePath] acc = Some (acc, True)"
| "lineTos ops acc = None"

text \<open>
  The paths that \<open>drawStroke\<close> and \<open>drawShape\<close> build after \<^verbatim>\<open>beginPath()\<close> have three forms: a
  \<^verbatim>\<open>moveTo\<close> followed by \<^verbatim>\<open>lineTo\<close>s, the same with a final \<^verbatim>\<open>closePath\<close>, and one \<^verbatim>\<open>arc\<close> from 0 to
  \<open>2 * pi\<close>.  A path of another form, which the program never strokes, has no region here.
\<close>

definition inStroke :: "Pen \<Rightarrow> Outline \<Rightarrow> vec \<Rightarrow> bool" where
  "inStroke pen ol p =
     (case ol of
        RectOutline x y w h \<Rightarrow> strokedRect pen x y w h p
      | PathOutline [Arc cx cy r a0 a1] \<Rightarrow> 2 * pi \<le> a1 - a0 \<and> strokedCircle pen cx cy r p
      | PathOutline (MoveTo x y # ops) \<Rightarrow>
          (case lineTos ops [(x, y)] of
             Some (pts, isClosed) \<Rightarrow> strokedPath pen isClosed pts p
           | None \<Rightarrow> False)
      | _ \<Rightarrow> False)"

subsection \<open>Notions for the statements about floodFill\<close>

text \<open>
  A canvas is well formed when its bitmap has four bytes for each pixel.  \<open>posOf\<close> is the
  index \<^verbatim>\<open>(cy * width + cx) * 4\<close> of a pixel, \<open>inside\<close> the bounds test of the loop,
  \<open>paintColour\<close> what a pixel holds after the four stores, \<open>region\<close> the pixels that a path
  of horizontal and vertical steps through pixels of the colour \<open>start\<close> connects to the
  seed, and \<open>matching\<close> the number of pixels of that colour.  \<open>paintOf\<close>, \<open>seedColour\<close> and
  \<open>sameColour\<close> name the fill numbers, the colour read at the seed and the comparison of
  \<open>floodFill\<close>; \<open>byteColour\<close> says that the computed colour has no digits at all or starts
  with three numbers up to 255.
\<close>

definition wf_canvas :: "Canvas \<Rightarrow> bool" where
  "wf_canvas c = (length (bitmap c) = 4 * canvas_width c * canvas_height c)"

definition inside :: "int \<Rightarrow> int \<Rightarrow> int \<times> int \<Rightarrow> bool" where
  "inside W H q = (0 \<le> fst q \<and> fst q < W \<and> 0 \<le> snd q \<and> snd q < H)"

definition posOf :: "int \<Rightarrow> int \<times> int \<Rightarrow> int" where
  "posOf W q = (snd q * W + fst q) * 4"

definition paintColour :: "paint \<Rightarrow> rgba" where
  "paintColour p =
     (case p of (fillR, fillG, fillB, fillA) \<Rightarrow>
        (Some (clamp8 fillR), Some (clamp8 fillG), Some (clamp8 fillB), Some (clamp8 fillA)))"

definition neighbours :: "int \<times> int \<Rightarrow> (int \<times> int) list" where
  "neighbours q = [(fst q, snd q - 1), (fst q, snd q + 1), (fst q - 1, snd q), (fst q + 1, snd q)]"


definition matching :: "int \<Rightarrow> int \<Rightarrow> rgba \<Rightarrow> byte list \<Rightarrow> nat" where
  "matching W H start data = card {q. inside W H q \<and> pixelAt data (posOf W q) = start}"

definition paintOf :: "nat list \<Rightarrow> paint" where
  "paintOf rgba = (element rgba 0, element rgba 1, element rgba 2, Some 255)"

definition seedColour :: "Canvas \<Rightarrow> real \<Rightarrow> real \<Rightarrow> rgba" where
  "seedColour c x y = pixelAt (bitmap c) ((\<lfloor>y\<rfloor> * int (canvas_width c) + \<lfloor>x\<rfloor>) * 4)"

definition sameColour :: "paint \<Rightarrow> rgba \<Rightarrow> bool" where
  "sameColour p s =
     (case p of (fillR, fillG, fillB, fillA) \<Rightarrow> case s of (startR, startG, startB, startA) \<Rightarrow>
        sameNumber fillR startR \<and> sameNumber fillG startG
        \<and> sameNumber fillB startB \<and> sameNumber fillA startA)"

definition byteColour :: "Browser \<Rightarrow> string \<Rightarrow> bool" where
  "byteColour B col =
     (case matchDigits (computedColor B col) of
        None \<Rightarrow> True
      | Some rgba \<Rightarrow> 3 \<le> length rgba \<and> list_all (\<lambda>n. n \<le> 255) (take 3 rgba))"

subsection \<open>Notions for the statements about redrawCanvas\<close>

text \<open>
  \<open>keepsSize\<close>: a stroke leaves the bitmap at its length.  \<open>clearOrFill\<close>: the action is a
  Clear, or it is a Fill, the browser keeps the size of the bitmap and the fill colour
  has three 8-bit channels.

  \<open>hexColour\<close> reads a colour as the page's colour input writes it, \<^verbatim>\<open>#rrggbb\<close>.  \<open>pixelSquare\<close>
  is the unit square of a pixel.  A browser \<open>strokesRects\<close> when it takes the strings
  \<^verbatim>\<open>#rrggbb\<close> for colours and its \<^verbatim>\<open>strokeRect\<close> does what every rasteriser does, whatever its
  anti-aliasing: a pixel whose square lies outside the stroked region keeps its bytes,
  and a pixel whose square lies inside it gets the colour of the pen, opaque.
\<close>

definition keepsSize :: "Browser \<Rightarrow> bool" where
  "keepsSize B = (\<forall>pen ol W H data. length (strokeOutline B pen ol W H data) = length data)"

definition clearOrFill :: "Browser \<Rightarrow> CanvasAction \<Rightarrow> bool" where
  "clearOrFill B a =
     (case action_type a of
        clear \<Rightarrow> True
      | fill \<Rightarrow> keepsSize B \<and>
          (case action_data a of Some (FillData f) \<Rightarrow> byteColour B (fill_color f) | _ \<Rightarrow> True)
      | _ \<Rightarrow> False)"

definition hexDigit :: "char \<Rightarrow> nat option" where
  "hexDigit ch = map_of (zip ''0123456789abcdefABCDEF'' ([0..<16] @ [10..<16])) ch"

definition hexByte :: "char \<Rightarrow> char \<Rightarrow> byte option" where
  "hexByte hi lo =
     (case (hexDigit hi, hexDigit lo) of
        (Some h, Some l) \<Rightarrow> Some (of_nat (16 * h + l))
      | _ \<Rightarrow> None)"

definition hexColour :: "string \<Rightarrow> (byte \<times> byte \<times> byte) option" where
  "hexColour s =
     (case s of
        [hash, r1, r0, g1, g0, b1, b0] \<Rightarrow>
          (if hash = CHR ''#''
           then (case (hexByte r1 r0, hexByte g1 g0, hexByte b1 b0) of
                   (Some r, Some g, Some b) \<Rightarrow> Some (r, g, b)
                 | _ \<Rightarrow> None)
           else None)
      | _ \<Rightarrow> None)"

definition pixelSquare :: "int \<times> int \<Rightarrow> vec set" where
  "pixelSquare q =
     {p. of_int (fst q) \<le> fst p \<and> fst p \<le> of_int (fst q) + 1
         \<and> of_int (snd q) \<le> snd p \<and> snd p \<le> of_int (snd q) + 1}"

definition strokesRects :: "Browser \<Rightarrow> bool" where
  "strokesRects B =
     ((\<forall>s. hexColour s \<noteq> None \<longrightarrow> validColor B s) \<and>
      (\<forall>pen x y w h W H data q.
         0 < pen_lineWidth pen \<and> length data = 4 * W * H \<and> inside (int W) (int H) q \<longrightarrow>
           ((\<forall>p \<in> pixelSquare q. \<not> strokedRect pen x y w h p) \<longrightarrow>
              pixelAt (strokeOutline B pen (RectOutline x y w h) W H data) (posOf (int W) q)
                = pixelAt data (posOf (int W) q))
         \<and> ((\<forall>p \<in> pixelSquare q. strokedRect pen x y w h p) \<longrightarrow>
              (\<forall>r g b. hexColour (pen_strokeStyle pen) = Some (r, g, b) \<longrightarrow>
                 pixelAt (strokeOutline B pen (RectOutline x y w h) W H data) (posOf (int W) q)
                   = (Some r, Some g, Some b, Some 255)))))"

section \<open>Sample data\<close>

definition sampleAction :: "ActionType \<Rightarrow> nat \<Rightarrow> CanvasAction" where
  "sampleAction t n = \<lparr>action_id = ''a'', action_type = t, action_data = None,
     action_userId = ''u'', timestamp = n\<rparr>"

definition emptyRoom :: Room where
  "emptyRoom = \<lparr>users = [\<lparr>user_id = ''h'', username = ''Hana'', isHost = True, user_color = ''#f87171''\<rparr>],
     history = [], redoStack = []\<rparr>"

definition busyRoom :: Room where
  "busyRoom = emptyRoom\<lparr>history := [sampleAction clear 1, sampleAction fill 2],
     redoStack := [sampleAction shape 4, sampleAction stroke 3]\<rparr>"

definition threeRoom :: Room where
  "threeRoom = \<lparr>users = [\<lparr>user_id = ''h'', username = ''Hana'', isHost = True, user_color = ''#f87171''\<rparr>,
                          \<lparr>user_id = ''b'', username = ''Bo'', isHost = False, user_color = ''#fb923c''\<rparr>,
                          \<lparr>user_id = ''c'', username = ''Cy'', isHost = False, user_color = ''#fbbf24''\<rparr>],
     history = [sampleAction clear 1], redoStack = [sampleAction fill 2]\<rparr>"

text \<open>
  A new canvas as the browser creates it, and two sample browsers.

  \<open>sampleBrowser\<close> takes the colours \<^verbatim>\<open>#rrggbb\<close>, computes them to \<^verbatim>\<open>rgb(r, g, b)\<close> (and any other
  string to black, the initial colour), and rasterises a stroke with 16 samples in
  every pixel: the number of samples inside the stroked region is the coverage of the
  pixel, and the pen's colour is composited onto the pixel with that coverage
  (source-over, rounded to bytes).

  \<open>opaqueBrowser\<close> is the same browser with colours that are opaque to it, for the
  examples with fills of colours in other notations: it takes every non-empty string for
  a colour and reports a colour's computed form as it was written.
\<close>

definition newCanvas :: "nat \<Rightarrow> nat \<Rightarrow> Canvas" where
  "newCanvas W H = \<lparr>canvas_width = W, canvas_height = H, bitmap = replicate (4 * W * H) 0,
     strokeStyle = ''#000000'', lineWidth = 1, lineCap = ''butt'', lineJoin = ''miter'', path = []\<rparr>"

function decimal :: "nat \<Rightarrow> string" where
  "decimal n = (if n < 10 then [''0123456789'' ! n]
                else decimal (n div 10) @ [''0123456789'' ! (n mod 10)])"
  by pat_completeness auto
termination by (relation "measure id") auto

declare decimal.simps [simp del]

definition rgbString :: "byte \<times> byte \<times> byte \<Rightarrow> string" where
  "rgbString col = (case col of (r, g, b) \<Rightarrow>
     ''rgb('' @ decimal (unat r) @ '', '' @ decimal (unat g) @ '', '' @ decimal (unat b) @ '')'')"

definition subsamples :: "nat \<Rightarrow> nat \<Rightarrow> vec list" where
  \<comment> \<open>a grid of 4 by 4 points in the pixel \<open>(x, y)\<close>\<close>
  "subsamples x y =
     concat (map (\<lambda>j. map (\<lambda>i. (real x + (2 * real i + 1) / 8, real y + (2 * real j + 1) / 8))
                          [0..<4]) [0..<4])"

definition coverage :: "Pen \<Rightarrow> Outline \<Rightarrow> nat \<Rightarrow> nat \<Rightarrow> nat" where
  "coverage pen ol x y = length (filter (inStroke pen ol) (subsamples x y))"

definition sourceOver :: "nat \<Rightarrow> nat \<times> nat \<times> nat \<Rightarrow> nat \<times> nat \<times> nat \<times> nat \<Rightarrow> nat \<times> nat \<times> nat \<times> nat" where
  \<comment> \<open>the opaque colour \<open>col\<close> with coverage \<open>k / 16\<close> over the pixel \<open>old\<close>: the alpha is
      \<open>a / (16 * 255)\<close>, and a channel is the mean of the two colours weighted by their alphas\<close>
  "sourceOver k col old =
     (case col of (r, g, b) \<Rightarrow> case old of (dr, dg, db, da) \<Rightarrow>
        if k = 0 then old
        else let a = 255 * k + da * (16 - k);
                 ch = (\<lambda>s d. (2 * (s * 255 * k + d * da * (16 - k)) + a) div (2 * a))
             in (ch r dr, ch g dg, ch b db, (a + 8) div 16))"

definition byteAt :: "byte list \<Rightarrow> nat \<Rightarrow> nat" where
  "byteAt data i = (if i < length data then unat (data ! i) else 0)"

definition strokeBytes :: "(nat \<Rightarrow> nat \<Rightarrow> nat) \<Rightarrow> nat \<times> nat \<times> nat \<Rightarrow> nat \<Rightarrow> byte list \<Rightarrow> byte list" where
  \<comment> \<open>byte \<open>i\<close> belongs to pixel \<open>i div 4\<close>, in column \<open>n mod W\<close> of row \<open>n div W\<close>\<close>
  "strokeBytes cov col W data =
     map (\<lambda>i. let n = i div 4;
                  old = (byteAt data (4 * n), byteAt data (4 * n + 1), byteAt data (4 * n + 2),
                         byteAt data (4 * n + 3))
              in case sourceOver (cov (n mod W) (n div W)) col old of
                   (r, g, b, a) \<Rightarrow> of_nat ([r, g, b, a] ! (i mod 4)))
       [0..<length data]"

definition penColour :: "Pen \<Rightarrow> nat \<times> nat \<times> nat" where
  "penColour pen =
     (case hexColour (pen_strokeStyle pen) of
        Some (r, g, b) \<Rightarrow> (unat r, unat g, unat b)
      | None \<Rightarrow> (0, 0, 0))"

definition sampleBrowser :: Browser where
  "sampleBrowser =
     \<lparr>validColor = (\<lambda>s. hexColour s \<noteq> None),
      computedColor = (\<lambda>s. case hexColour s of Some col \<Rightarrow> rgbString col | None \<Rightarrow> ''rgb(0, 0, 0)''),
      strokeOutline = (\<lambda>pen ol W H data. strokeBytes (coverage pen ol) (penColour pen) W data)\<rparr>"

definition opaqueBrowser :: Browser where
  "opaqueBrowser = sampleBrowser\<lparr>validColor := (\<lambda>s. s \<noteq> []), computedColor := (\<lambda>s. s)\<rparr>"

definition fillAt :: "real \<Rightarrow> real \<Rightarrow> string \<Rightarrow> CanvasAction" where
  "fillAt x y col = \<lparr>action_id = ''f'', action_type = fill,
     action_data = Some (FillData \<lparr>point = \<lparr>px = x, py = y\<rparr>, fill_color = col\<rparr>),
     action_userId = ''u'', timestamp = 0\<rparr>"

definition rectOfWidth :: "real \<Rightarrow> real \<Rightarrow> real \<Rightarrow> real \<Rightarrow> real \<Rightarrow> CanvasAction" where
  "rectOfWidth lw x0 y0 x1 y1 = \<lparr>action_id = ''r'', action_type = shape,
     action_data = Some (ShapeData \<lparr>shape_type = rect, startPoint = \<lparr>px = x0, py = y0\<rparr>,
        endPoint = \<lparr>px = x1, py = y1\<rparr>, shape_color = ''#ff0000'', shape_width = lw, isFilled = False\<rparr>),
     action_userId = ''u'', timestamp = 0\<rparr>"

definition strokeFromTo :: "real \<Rightarrow> real \<Rightarrow> real \<Rightarrow> real \<Rightarrow> CanvasAction" where
  "strokeFromTo x0 y0 x1 y1 = \<lparr>action_id = ''s'', action_type = stroke,
     action_data = Some (StrokeData \<lparr>points = [\<lparr>px = x0, py = y0\<rparr>, \<lparr>px = x1, py = y1\<rparr>],
        stroke_color = ''#00ff00'', stroke_width = 4, tool = brush\<rparr>),
     action_userId = ''u'', timestamp = 0\<rparr>"

definition twoPixels :: "byte list \<Rightarrow> Canvas" where
  "twoPixels data = (newCanvas 2 1)\<lparr>bitmap := data\<rparr>"

definition bluePixels :: Canvas where
  "bluePixels = twoPixels [50, 100, 255, 255, 50, 100, 255, 255]"

definition sampleShape :: "ShapeType \<Rightarrow> real \<Rightarrow> real \<Rightarrow> real \<Rightarrow> real \<Rightarrow> DrawShape" where
  "sampleShape t x0 y0 x1 y1 = \<lparr>shape_type = t, startPoint = \<lparr>px = x0, py = y0\<rparr>,
     endPoint = \<lparr>px = x1, py = y1\<rparr>, shape_color = ''#ff0000'', shape_width = 2, isFilled = False\<rparr>"

section \<open>Properties of the relay server\<close>

subsection \<open>Association lists and searches\<close>

lemma find_SomeD: "find P xs = Some u \<Longrightarrow> u \<in> set xs \<and> P u"
  by (induction xs) (auto split: if_splits)

lemma update_entries: "(k', v') \<in> set (AList.update k v al) \<Longrightarrow> (k', v') \<in> set al \<or> (k' = k \<and> v' = v)"
  by (induction al) (auto split: if_splits)

lemma delete_entries: "(k', v') \<in> set (AList.delete k al) \<Longrightarrow> (k', v') \<in> set al"
  by (auto simp: AList.delete_eq)

lemma capped_append:
  assumes "length h \<le> (500::nat)"
  shows "(if length (h @ [a]) > 500 then tl (h @ [a]) else h @ [a])
         = drop (length (h @ [a]) - 500) (h @ [a])"
proof (cases "length h < 500")
  case True
  then show ?thesis by simp
next
  case False
  with assms have n: "length h = 500" by simp
  then show ?thesis by (cases h) simp_all
qed

lemma addToHistory_room:
  assumes "map_of rooms rid = Some room" "length (history room) \<le> 500"
  shows "map_of (addToHistory rid a rooms) rid =
     Some (room\<lparr>history := drop (length (history room @ [a]) - 500) (history room @ [a]), redoStack := []\<rparr>)"
  using assms(1) capped_append[OF assms(2), of a]
  by (simp add: addToHistory_def Let_def update_conv' del: length_append)

lemma drop_cap_step:
  assumes "length h \<le> (500::nat)"
  shows "drop (length (drop (length (h @ [a]) - 500) (h @ [a]) @ as) - 500)
           (drop (length (h @ [a]) - 500) (h @ [a]) @ as)
         = drop (length (h @ a # as) - 500) (h @ a # as)"
proof (cases "length h < 500")
  case True
  then show ?thesis by simp
next
  case False
  with assms have n: "length h = 500" by simp
  then have ne: "h \<noteq> []" by auto
  have "drop (length (h @ [a]) - 500) (h @ [a]) = tl h @ [a]"
    using n ne by (cases h) (simp_all add: drop_Suc)
  moreover have "drop (length (h @ a # as) - 500) (h @ a # as) = drop (length as) (tl h @ a # as)"
    using n ne by (cases h) (simp_all add: drop_Suc)
  moreover have "length (tl h @ [a] @ as) - 500 = length as" using n by simp
  ultimately show ?thesis by simp
qed

lemma fold_addToHistory:
  assumes "map_of rooms rid = Some room" "length (history room) \<le> 500"
  shows "map_of (fold (addToHistory rid) as rooms) rid =
     Some (room\<lparr>history := drop (length (history room @ as) - 500) (history room @ as),
                redoStack := (if as = [] then redoStack room else [])\<rparr>)"
  using assms
proof (induction as arbitrary: rooms room)
  case Nil
  then show ?case by simp
next
  case (Cons a as)
  let ?room = "room\<lparr>history := drop (length (history room @ [a]) - 500) (history room @ [a]), redoStack := []\<rparr>"
  have 1: "map_of (addToHistory rid a rooms) rid = Some ?room"
    using Cons.prems by (rule addToHistory_room)
  have 2: "length (history ?room) \<le> 500" using Cons.prems(2) by simp
  show ?case
    using Cons.IH[OF 1 2] drop_cap_step[OF Cons.prems(2), of a as]
    by simp
qed

subsection \<open>undo / redo\<close>

lemma undo_empty:
  "map_of rooms rid = None \<or> (\<exists>room. map_of rooms rid = Some room \<and> history room = [])
   \<Longrightarrow> undo rid rooms = (rooms, [])"
  by (auto simp: undo_def)

lemma undo_nonempty:
  assumes "map_of rooms rid = Some room" "history room = h @ [a]"
  shows "undo rid rooms =
     (AList.update rid (room\<lparr>history := h, redoStack := redoStack room @ [a]\<rparr>) rooms,
      [Emit (ToRoom rid) (history_sync h)])"
  using assms by (simp add: undo_def Let_def)

lemma redo_empty:
  "map_of rooms rid = None \<or> (\<exists>room. map_of rooms rid = Some room \<and> redoStack room = [])
   \<Longrightarrow> redo rid rooms = (rooms, [])"
  by (auto simp: redo_def)

lemma redo_nonempty:
  assumes "map_of rooms rid = Some room" "redoStack room = rs @ [a]"
  shows "redo rid rooms =
     (AList.update rid (room\<lparr>redoStack := rs, history := history room @ [a]\<rparr>) rooms,
      [Emit (ToRoom rid) (history_sync (history room @ [a]))])"
  using assms by (simp add: redo_def Let_def)

lemma submit_undo_submit_redo:
  assumes "map_of rooms rid = Some room" "history room = []" "redoStack room = []"
  shows "map_of (run [(s1, Submit rid X), (s2, Undo rid), (s3, Submit rid Y), (s4, Redo rid)] rooms) rid
         = Some (room\<lparr>history := [Y], redoStack := []\<rparr>)"
proof -
  let ?r1 = "room\<lparr>history := [X], redoStack := []\<rparr>"
  let ?s1 = "addToHistory rid X rooms"
  have 1: "map_of ?s1 rid = Some ?r1"
    using addToHistory_room[OF assms(1), of X] assms(2) by simp
  let ?r2 = "?r1\<lparr>history := [], redoStack := redoStack ?r1 @ [X]\<rparr>"
  let ?s2 = "AList.update rid ?r2 ?s1"
  have u: "undo rid ?s1 = (?s2, [Emit (ToRoom rid) (history_sync [])])"
    by (rule undo_nonempty[OF 1]) simp
  have 2: "map_of ?s2 rid = Some ?r2" by (simp add: update_conv')
  let ?r3 = "?r2\<lparr>history := [Y], redoStack := []\<rparr>"
  let ?s3 = "addToHistory rid Y ?s2"
  have 3: "map_of ?s3 rid = Some ?r3"
    using addToHistory_room[OF 2, of Y] by simp
  have r: "redo rid ?s3 = (?s3, [])"
    using 3 by (intro redo_empty disjI2 exI[of _ ?r3]) simp
  have "run [(s1, Submit rid X), (s2, Undo rid), (s3, Submit rid Y), (s4, Redo rid)] rooms
        = fst (redo rid (fst (submit rid Y (fst (undo rid (fst (submit rid X rooms)))))))"
    by simp
  also have "\<dots> = fst (redo rid ?s3)"
    by (simp only: submit_def fst_conv u)
  also have "\<dots> = ?s3"
    by (simp only: r fst_conv)
  finally show ?thesis
    using 3 by simp
qed

subsection \<open>kick\<close>

lemma kick_user_unauthorized:
  assumes "map_of rooms rid = None \<or>
           (\<exists>room. map_of rooms rid = Some room \<and> (\<forall>u \<in> set (users room). user_id u = sid \<longrightarrow> \<not> isHost u))"
  shows "kick_user sid rid target ts rooms = (rooms, [])"
  using assms
  by (auto simp: kick_user_def split: option.splits dest!: find_SomeD)

lemma findIndex_Some:
  "findIndex P xs = Some i \<Longrightarrow> i < length xs \<and> P (xs ! i)"
  by (induction xs arbitrary: i) (auto split: if_splits)

lemma filter_splice1:
  assumes "i < length xs"
  shows "length (filter P (splice1 i xs)) = length (filter P xs) - (if P (xs ! i) then 1 else 0)"
proof -
  have "xs = take i xs @ xs ! i # drop (Suc i) xs"
    using assms by (rule id_take_nth_drop)
  then have "length (filter P xs) = length (filter P (take i xs @ xs ! i # drop (Suc i) xs))"
    by simp
  then show ?thesis by (simp add: splice1_def)
qed

lemma promote_first:
  assumes "us \<noteq> []" "length (filter isHost us) = 0"
  shows "length (filter isHost (us[0 := (us ! 0)\<lparr>isHost := True\<rparr>])) = 1"
  using assms by (cases us) (auto split: if_splits)

lemma host_inv_update:
  "host_inv rooms \<Longrightarrow> room_ok room \<Longrightarrow> host_inv (AList.update rid room rooms)"
  unfolding host_inv_def by (auto dest: update_entries)

lemma host_inv_delete: "host_inv rooms \<Longrightarrow> host_inv (AList.delete rid rooms)"
  unfolding host_inv_def by (auto dest: delete_entries)

lemma host_inv_lookup: "host_inv rooms \<Longrightarrow> map_of rooms rid = Some room \<Longrightarrow> room_ok room"
  unfolding host_inv_def by (auto dest: map_of_SomeD)

lemma handleLeave_users:
  assumes "map_of rooms rid = Some room" "findIndex (\<lambda>u. user_id u = sid) (users room) = Some i"
  shows "splice1 i (users room) = [] \<longrightarrow> fst (handleLeave rid sid rooms) = AList.delete rid rooms"
    and "splice1 i (users room) \<noteq> [] \<longrightarrow> fst (handleLeave rid sid rooms) =
           AList.update rid (room\<lparr>users :=
             (if isHost (users room ! i)
              then (hd (splice1 i (users room)))\<lparr>isHost := True\<rparr> # tl (splice1 i (users room))
              else splice1 i (users room))\<rparr>) rooms"
  using assms
  by (auto simp: handleLeave_def Let_def neq_Nil_conv)

lemma handleLeave_noop:
  "map_of rooms rid = None \<or> (\<exists>room. map_of rooms rid = Some room \<and> findIndex (\<lambda>u. user_id u = sid) (users room) = None)
    \<Longrightarrow> handleLeave rid sid rooms = (rooms, [])"
  by (auto simp: handleLeave_def)

lemma host_inv_handleLeave:
  assumes "host_inv rooms"
  shows "host_inv (fst (handleLeave rid sid rooms))"
proof (cases "map_of rooms rid")
  case None
  then show ?thesis using assms by (simp add: handleLeave_noop)
next
  case (Some room)
  note room = this
  show ?thesis
  proof (cases "findIndex (\<lambda>u. user_id u = sid) (users room)")
    case None
    then show ?thesis using assms room by (simp add: handleLeave_noop)
  next
    case (Some i)
    have ok: "room_ok room" using assms room by (rule host_inv_lookup)
    have i: "i < length (users room)" using Some by (auto dest: findIndex_Some)
    let ?us = "splice1 i (users room)"
    show ?thesis
    proof (cases "?us = []")
      case True
      then show ?thesis
        using handleLeave_users(1)[OF room Some] assms by (simp add: host_inv_delete)
    next
      case False
      have cnt: "length (filter isHost ?us) = 1 - (if isHost (users room ! i) then 1 else 0)"
        using filter_splice1[OF i, of isHost] ok by (simp add: room_ok_def)
      have "room_ok (room\<lparr>users :=
             (if isHost (users room ! i)
              then (hd ?us)\<lparr>isHost := True\<rparr> # tl ?us
              else ?us)\<rparr>)"
      proof (cases "isHost (users room ! i)")
        case True
        with cnt have "length (filter isHost ?us) = 0" by simp
        from promote_first[OF False this] False True show ?thesis
          by (cases ?us) (auto simp: room_ok_def)
      next
        case False
        with cnt \<open>?us \<noteq> []\<close> show ?thesis by (simp add: room_ok_def)
      qed
      then show ?thesis
        using handleLeave_users(2)[OF room Some] False assms by (simp add: host_inv_update)
    qed
  qed
qed

lemma host_inv_create_room: "host_inv rooms \<Longrightarrow> host_inv (fst (create_room sid name rid col rooms))"
  by (simp add: create_room_def Let_def host_inv_update room_ok_def)

lemma host_inv_join_room: "host_inv rooms \<Longrightarrow> host_inv (fst (join_room sid rid name col rooms))"
  by (auto simp: join_room_def Let_def room_ok_def split: option.splits
      intro!: host_inv_update dest: host_inv_lookup)

lemma host_inv_leave_room: "host_inv rooms \<Longrightarrow> host_inv (fst (leave_room sid rid rooms))"
  using host_inv_handleLeave[of rooms rid sid]
  by (cases "handleLeave rid sid rooms") (simp add: leave_room_def)

lemma host_inv_kick_user: "host_inv rooms \<Longrightarrow> host_inv (fst (kick_user sid rid target ts rooms))"
  using host_inv_handleLeave[of rooms rid target]
  by (cases "handleLeave rid target rooms") (auto simp: kick_user_def split: option.splits)

lemma host_inv_disconnect_room:
  "host_inv (fst acc) \<Longrightarrow> host_inv (fst (disconnect_room sid rid acc))"
  using host_inv_handleLeave[of "fst acc" rid sid]
  by (cases "handleLeave rid sid (fst acc)") (auto simp: disconnect_room_def split: option.splits)

lemma host_inv_fold_disconnect:
  "host_inv (fst acc) \<Longrightarrow> host_inv (fst (fold (disconnect_room sid) rids acc))"
proof (induction rids arbitrary: acc)
  case Nil
  then show ?case by simp
next
  case (Cons rid rids)
  from Cons.prems have "host_inv (fst (disconnect_room sid rid acc))"
    by (rule host_inv_disconnect_room)
  then show ?case using Cons.IH by simp
qed

lemma host_inv_disconnect: "host_inv rooms \<Longrightarrow> host_inv (fst (disconnect sid rooms))"
  by (simp add: disconnect_def host_inv_fold_disconnect)

lemma host_inv_addToHistory: "host_inv rooms \<Longrightarrow> host_inv (addToHistory rid a rooms)"
  by (auto simp: addToHistory_def Let_def room_ok_def split: option.splits
      intro!: host_inv_update dest: host_inv_lookup)

lemma host_inv_undo: "host_inv rooms \<Longrightarrow> host_inv (fst (undo rid rooms))"
  by (auto simp: undo_def Let_def room_ok_def split: option.splits
      intro!: host_inv_update dest: host_inv_lookup)

lemma host_inv_redo: "host_inv rooms \<Longrightarrow> host_inv (fst (redo rid rooms))"
  by (auto simp: redo_def Let_def room_ok_def split: option.splits
      intro!: host_inv_update dest: host_inv_lookup)

lemma host_inv_handle: "host_inv rooms \<Longrightarrow> host_inv (fst (handle sid r rooms))"
  by (cases r)
    (simp_all add: host_inv_create_room host_inv_join_room host_inv_leave_room
      host_inv_kick_user host_inv_disconnect host_inv_addToHistory host_inv_undo host_inv_redo
      start_game_def relay_draw_line_def relay_cursor_move_def relay_chat_message_def submit_def)

lemma host_inv_run: "host_inv rooms \<Longrightarrow> host_inv (run evs rooms)"
proof (induction evs arbitrary: rooms)
  case Nil
  then show ?case by simp
next
  case (Cons ev evs)
  obtain sid r where ev: "ev = (sid, r)" by (cases ev)
  from Cons.prems have "host_inv (fst (handle sid r rooms))"
    by (rule host_inv_handle)
  then show ?case using Cons.IH ev by simp
qed

lemma host_inv_empty: "host_inv []"
  by (simp add: host_inv_def)

lemma mock_fold:
  assumes "length (mockHistory m) \<le> 500"
  shows "fold mockAddToHistory as m =
     m\<lparr>mockHistory := drop (length (mockHistory m @ as) - 500) (mockHistory m @ as),
       mockRedoStack := (if as = [] then mockRedoStack m else [])\<rparr>"
  using assms
proof (induction as arbitrary: m)
  case Nil
  then show ?case by simp
next
  case (Cons a as)
  let ?m = "m\<lparr>mockHistory := drop (length (mockHistory m @ [a]) - 500) (mockHistory m @ [a]), mockRedoStack := []\<rparr>"
  have 1: "mockAddToHistory a m = ?m"
    using capped_append[OF Cons.prems, of a]
    by (simp add: mockAddToHistory_def Let_def del: length_append)
  have 2: "length (mockHistory ?m) \<le> 500" using Cons.prems by simp
  show ?case
    using Cons.IH[OF 2] drop_cap_step[OF Cons.prems, of a as]
    by (simp add: 1)
qed

lemma length_capped: "length (drop (length xs - 500) xs) \<le> 500"
  by simp

text \<open>
  Claim C2.  A room whose history holds at most 500 actions receives the appends \<open>as\<close>,
  one at a time.  Afterwards its history is the last 500 entries of the old history
  followed by \<open>as\<close>, in order, so it never holds more than 500 entries: the 501st
  append drops the oldest entry and nothing else.  The mock history of the fallback
  bus behaves the same way.
\<close>
theorem history_capacity:
  assumes "map_of rooms rid = Some room" "length (history room) \<le> 500"
    and "length (mockHistory m) \<le> 500"
  shows "map_of (fold (addToHistory rid) as rooms) rid =
           Some (room\<lparr>history := drop (length (history room @ as) - 500) (history room @ as),
                      redoStack := (if as = [] then redoStack room else [])\<rparr>)
         \<and> length (drop (length (history room @ as) - 500) (history room @ as)) \<le> 500
         \<and> fold mockAddToHistory as m =
           m\<lparr>mockHistory := drop (length (mockHistory m @ as) - 500) (mockHistory m @ as),
             mockRedoStack := (if as = [] then mockRedoStack m else [])\<rparr>
         \<and> length (drop (length (mockHistory m @ as) - 500) (mockHistory m @ as)) \<le> 500"
  using fold_addToHistory[OF assms(1,2), of as] mock_fold[OF assms(3), of as]
    length_capped[of "history room @ as"] length_capped[of "mockHistory m @ as"]
  by (simp only: simp_thms)

theorem history_capacity_witness:
  "map_of (fold (addToHistory ''R'') (map (sampleAction clear) [0..<501]) [(''R'', emptyRoom)]) ''R''
     = Some (emptyRoom\<lparr>history := map (sampleAction clear) [1..<501], redoStack := []\<rparr>)
   \<and> length (map (sampleAction clear) [1..<501]) = 500
   \<and> fold mockAddToHistory (map (sampleAction clear) [0..<501])
        \<lparr>mockHistory = [], mockRedoStack = [sampleAction clear 7], mockUsers = []\<rparr>
     = \<lparr>mockHistory = map (sampleAction clear) [1..<501], mockRedoStack = [], mockUsers = []\<rparr>"
proof -
  have d: "drop 1 (map (sampleAction clear) [0..<501]) = map (sampleAction clear) [1..<501]"
    by (simp add: drop_map)
  have e: "map (sampleAction clear) [0..<501] \<noteq> []" by simp
  show ?thesis
    using history_capacity[of "[(''R'', emptyRoom)]" "''R''" emptyRoom
        "\<lparr>mockHistory = [], mockRedoStack = [sampleAction clear 7], mockUsers = []\<rparr>"
        "map (sampleAction clear) [0..<501]"] d e
    by (simp add: emptyRoom_def)
qed

lemma addToHistory_clears:
  assumes "map_of rooms rid = Some room"
  shows "map_option redoStack (map_of (addToHistory rid a rooms) rid) = Some []"
  using assms by (simp add: addToHistory_def Let_def update_conv')

text \<open>
  Claim C3, as the code has it.  Every append empties the redo stack of its room.
  From a room with empty history and empty redo stack, the sequence append \<open>X\<close>, undo,
  append \<open>Y\<close>, redo leaves the history \<open>[Y]\<close> and the redo stack empty: the undo took
  \<open>X\<close> out of the history, the append of \<open>Y\<close> discarded it from the redo stack, and the
  final redo finds nothing to restore.  The claim's \<open>[X, Y]\<close> is refuted below.
\<close>
theorem append_clears_redo:
  assumes "map_of rooms rid = Some room"
  shows "map_option redoStack (map_of (addToHistory rid a rooms) rid) = Some []
    \<and> (history room = [] \<and> redoStack room = [] \<longrightarrow>
         map_of (run [(s1, Submit rid X), (s2, Undo rid), (s3, Submit rid Y), (s4, Redo rid)] rooms) rid
           = Some (room\<lparr>history := [Y], redoStack := []\<rparr>))"
  using addToHistory_clears[OF assms] submit_undo_submit_redo[OF assms]
  by blast

theorem append_clears_redo_witness:
  "map_option redoStack (map_of (addToHistory ''R'' (sampleAction clear 3)
       [(''R'', emptyRoom\<lparr>redoStack := [sampleAction fill 2]\<rparr>)]) ''R'') = Some []
   \<and> map_of (run [(''h'', Submit ''R'' (sampleAction clear 1)), (''h'', Undo ''R''),
                  (''h'', Submit ''R'' (sampleAction clear 2)), (''h'', Redo ''R'')]
              [(''R'', emptyRoom)]) ''R''
       = Some (emptyRoom\<lparr>history := [sampleAction clear 2], redoStack := []\<rparr>)"
  using append_clears_redo[of "[(''R'', emptyRoom\<lparr>redoStack := [sampleAction fill 2]\<rparr>)]" "''R''"
      "emptyRoom\<lparr>redoStack := [sampleAction fill 2]\<rparr>" "sampleAction clear 3"]
    append_clears_redo[of "[(''R'', emptyRoom)]" "''R''" emptyRoom "sampleAction clear 3"
      "''h''" "sampleAction clear 1" "''h''" "''h''" "sampleAction clear 2" "''h''"]
  by (simp add: emptyRoom_def)

theorem redo_after_append_counterexample:
  "map_option history
     (map_of (run [(''h'', Submit ''R'' (sampleAction clear 1)), (''h'', Undo ''R''),
                   (''h'', Submit ''R'' (sampleAction clear 2)), (''h'', Redo ''R'')]
               (fst (create_room ''h'' ''Hana'' ''R'' ''#f87171'' []))) ''R'')
   \<noteq> Some [sampleAction clear 1, sampleAction clear 2]"
  by (simp add: create_room_def submit_def addToHistory_def undo_def redo_def Let_def)

text \<open>
  Claim C4.  \<open>undo\<close> leaves the server as it is and sends nothing when the room is
  unknown or its history is empty; otherwise it moves the last action of the history
  to the top of the redo stack and sends the whole remaining history to the room.
  \<open>redo\<close> leaves the server as it is and sends nothing when the room is unknown or its
  redo stack is empty; otherwise it moves the top of the redo stack to the end of the
  history and sends the whole history to the room.
\<close>
theorem undo_redo_moves:
  "(map_of rooms rid = None \<or> (\<exists>room. map_of rooms rid = Some room \<and> history room = [])
      \<longrightarrow> undo rid rooms = (rooms, []))
   \<and> (map_of rooms rid = Some room \<and> history room = h @ [a]
      \<longrightarrow> undo rid rooms =
          (AList.update rid (room\<lparr>history := h, redoStack := redoStack room @ [a]\<rparr>) rooms,
           [Emit (ToRoom rid) (history_sync h)]))
   \<and> (map_of rooms rid = None \<or> (\<exists>room. map_of rooms rid = Some room \<and> redoStack room = [])
      \<longrightarrow> redo rid rooms = (rooms, []))
   \<and> (map_of rooms rid = Some room \<and> redoStack room = rs @ [b]
      \<longrightarrow> redo rid rooms =
          (AList.update rid (room\<lparr>redoStack := rs, history := history room @ [b]\<rparr>) rooms,
           [Emit (ToRoom rid) (history_sync (history room @ [b]))]))"
  using undo_empty[of rooms rid] undo_nonempty[of rooms rid room h a]
    redo_empty[of rooms rid] redo_nonempty[of rooms rid room rs b]
  by blast

theorem undo_redo_moves_witness:
  "undo ''R'' [(''R'', emptyRoom)] = ([(''R'', emptyRoom)], [])
   \<and> undo ''Q'' [(''R'', busyRoom)] = ([(''R'', busyRoom)], [])
   \<and> undo ''R'' [(''R'', busyRoom)] =
       ([(''R'', busyRoom\<lparr>history := [sampleAction clear 1],
            redoStack := [sampleAction shape 4, sampleAction stroke 3, sampleAction fill 2]\<rparr>)],
        [Emit (ToRoom ''R'') (history_sync [sampleAction clear 1])])
   \<and> redo ''R'' [(''R'', emptyRoom)] = ([(''R'', emptyRoom)], [])
   \<and> redo ''R'' [(''R'', busyRoom)] =
       ([(''R'', busyRoom\<lparr>redoStack := [sampleAction shape 4],
            history := [sampleAction clear 1, sampleAction fill 2, sampleAction stroke 3]\<rparr>)],
        [Emit (ToRoom ''R'') (history_sync [sampleAction clear 1, sampleAction fill 2, sampleAction stroke 3])])"
  using undo_redo_moves[of "[(''R'', emptyRoom)]" "''R''" emptyRoom "[]" "sampleAction clear 1" "[]" "sampleAction clear 1"]
    undo_redo_moves[of "[(''R'', busyRoom)]" "''Q''" emptyRoom "[]" "sampleAction clear 1" "[]" "sampleAction clear 1"]
    undo_redo_moves[of "[(''R'', busyRoom)]" "''R''" busyRoom "[sampleAction clear 1]" "sampleAction fill 2"
       "[sampleAction shape 4]" "sampleAction stroke 3"]
  by (simp add: emptyRoom_def busyRoom_def)

text \<open>
  Claim C6.  A \<open>kick_user\<close> request for an unknown room, from a socket that is not a
  member of the room, or from a member without the host flag changes nothing on the
  server (members, histories and redo stacks of all rooms) and sends nothing to anyone.
\<close>
theorem kick_requires_host:
  assumes "map_of rooms rid = None \<or>
           (\<exists>room. map_of rooms rid = Some room \<and> (\<forall>u \<in> set (users room). user_id u = sid \<longrightarrow> \<not> isHost u))"
  shows "kick_user sid rid target ts rooms = (rooms, [])"
  using assms by (rule kick_user_unauthorized)

theorem kick_requires_host_witness:
  "kick_user ''b'' ''R'' ''c'' True [(''R'', threeRoom)] = ([(''R'', threeRoom)], [])
   \<and> kick_user ''z'' ''R'' ''c'' True [(''R'', threeRoom)] = ([(''R'', threeRoom)], [])
   \<and> kick_user ''h'' ''Q'' ''c'' True [(''R'', threeRoom)] = ([(''R'', threeRoom)], [])"
  using kick_requires_host[of "[(''R'', threeRoom)]" "''R''" "''b''" "''c''" True]
    kick_requires_host[of "[(''R'', threeRoom)]" "''R''" "''z''" "''c''" True]
    kick_requires_host[of "[(''R'', threeRoom)]" "''Q''" "''h''" "''c''" True]
  by (simp add: threeRoom_def)

lemma leave_room_fst: "fst (leave_room sid rid rooms) = fst (handleLeave rid sid rooms)"
  by (cases "handleLeave rid sid rooms") (simp add: leave_room_def)

lemma findIndex_None_find: "findIndex P xs = None \<longleftrightarrow> find P xs = None"
  by (induction xs) auto

lemma handleLeave_at:
  "map_of (fst (handleLeave rid sid rooms)) rid = Option.bind (map_of rooms rid) (afterLeave sid)"
  by (auto simp: handleLeave_def afterLeave_def Let_def update_conv' delete_conv' neq_Nil_conv
      split: option.splits list.splits)

lemma handleLeave_other:
  "k \<noteq> rid \<Longrightarrow> map_of (fst (handleLeave rid sid rooms)) k = map_of rooms k"
  by (auto simp: handleLeave_def Let_def update_conv' delete_conv' split: option.splits)

lemma kick_user_host:
  assumes "map_of rooms rid = Some room" "find (\<lambda>u. user_id u = sid) (users room) = Some req" "isHost req"
  shows "fst (kick_user sid rid target ts rooms) = fst (handleLeave rid target rooms)"
  using assms by (cases "handleLeave rid target rooms") (simp add: kick_user_def)

lemma disconnect_room_at:
  "map_of (fst (disconnect_room sid k acc)) k = Option.bind (map_of (fst acc) k) (afterLeave sid)"
proof (cases "map_of (fst acc) k")
  case None
  then show ?thesis by (simp add: disconnect_room_def)
next
  case (Some room)
  show ?thesis
  proof (cases "find (\<lambda>u. user_id u = sid) (users room)")
    case None
    then have "findIndex (\<lambda>u. user_id u = sid) (users room) = None"
      by (simp add: findIndex_None_find)
    with None Some show ?thesis by (simp add: disconnect_room_def afterLeave_def)
  next
    case (Some u)
    with \<open>map_of (fst acc) k = Some room\<close> handleLeave_at[of k sid "fst acc"]
    show ?thesis
      by (cases "handleLeave k sid (fst acc)") (simp add: disconnect_room_def)
  qed
qed

lemma disconnect_room_other:
  "k \<noteq> r \<Longrightarrow> map_of (fst (disconnect_room sid r acc)) k = map_of (fst acc) k"
  using handleLeave_other[of k r sid "fst acc"]
  by (cases "handleLeave r sid (fst acc)") (auto simp: disconnect_room_def split: option.splits)

lemma fold_disconnect_room:
  assumes "distinct rids"
  shows "map_of (fst (fold (disconnect_room sid) rids acc)) k =
           (if k \<in> set rids then Option.bind (map_of (fst acc) k) (afterLeave sid)
            else map_of (fst acc) k)"
  using assms
proof (induction rids arbitrary: acc)
  case Nil
  then show ?case by simp
next
  case (Cons r rids)
  from Cons.prems have d: "distinct rids" and r: "r \<notin> set rids" by simp_all
  show ?case
  proof (cases "k = r")
    case True
    with r Cons.IH[OF d, of "disconnect_room sid r acc"] show ?thesis
      by (simp add: disconnect_room_at)
  next
    case False
    with Cons.IH[OF d, of "disconnect_room sid r acc"] show ?thesis
      by (simp add: disconnect_room_other)
  qed
qed

lemma disconnect_at:
  assumes "distinct (map fst rooms)"
  shows "map_of (fst (disconnect sid rooms)) k = Option.bind (map_of rooms k) (afterLeave sid)"
proof -
  have "k \<notin> set (map fst rooms) \<Longrightarrow> map_of rooms k = None"
    by (simp add: map_of_eq_None_iff)
  with fold_disconnect_room[OF assms, of sid "(rooms, [])" k] show ?thesis
    by (auto simp: disconnect_def)
qed

lemma afterLeave_some:
  assumes "findIndex (\<lambda>u. user_id u = sid) (users room) = Some i" "splice1 i (users room) = b # rest"
  shows "afterLeave sid room
           = Some (room\<lparr>users := (if isHost (users room ! i) then b\<lparr>isHost := True\<rparr> else b) # rest\<rparr>)"
  using assms by (simp add: afterLeave_def)

lemma afterLeave_none:
  assumes "findIndex (\<lambda>u. user_id u = sid) (users room) = Some i" "splice1 i (users room) = []"
  shows "afterLeave sid room = None"
  using assms by (simp add: afterLeave_def)

lemma distinct_handleLeave:
  "distinct (map fst rooms) \<Longrightarrow> distinct (map fst (fst (handleLeave rid sid rooms)))"
  by (auto simp: handleLeave_def Let_def distinct_update distinct_delete split: option.splits)

lemma distinct_disconnect_room:
  "distinct (map fst (fst acc)) \<Longrightarrow> distinct (map fst (fst (disconnect_room sid rid acc)))"
  using distinct_handleLeave[of "fst acc" rid sid]
  by (cases "handleLeave rid sid (fst acc)") (auto simp: disconnect_room_def split: option.splits)

lemma distinct_fold_disconnect:
  "distinct (map fst (fst acc)) \<Longrightarrow> distinct (map fst (fst (fold (disconnect_room sid) rids acc)))"
proof (induction rids arbitrary: acc)
  case Nil
  then show ?case by simp
next
  case (Cons rid rids)
  from Cons.prems have "distinct (map fst (fst (disconnect_room sid rid acc)))"
    by (rule distinct_disconnect_room)
  then show ?case using Cons.IH by simp
qed

lemma distinct_handle:
  assumes "distinct (map fst rooms)"
  shows "distinct (map fst (fst (handle sid r rooms)))"
proof (cases r)
  case (LeaveRoom rid)
  with distinct_handleLeave[OF assms, of rid sid] show ?thesis
    by (cases "handleLeave rid sid rooms") (simp add: leave_room_def)
next
  case (KickUser rid target ts)
  with distinct_handleLeave[OF assms, of rid target] assms show ?thesis
    by (cases "handleLeave rid target rooms") (auto simp: kick_user_def split: option.splits)
next
  case Disconnect
  with assms show ?thesis by (simp add: disconnect_def distinct_fold_disconnect)
qed (use assms in \<open>auto simp: create_room_def join_room_def Let_def start_game_def
      relay_draw_line_def relay_cursor_move_def relay_chat_message_def submit_def addToHistory_def
      undo_def redo_def distinct_update split: option.splits\<close>)

lemma distinct_run: "distinct (map fst rooms) \<Longrightarrow> distinct (map fst (run evs rooms))"
proof (induction evs arbitrary: rooms)
  case Nil
  then show ?case by simp
next
  case (Cons ev evs)
  obtain sid r where ev: "ev = (sid, r)" by (cases ev)
  from Cons.prems have "distinct (map fst (fst (handle sid r rooms)))"
    by (rule distinct_handle)
  then show ?case using Cons.IH ev by simp
qed

lemma member_leaves:
  assumes room: "map_of rooms rid = Some room"
  shows "map_of (fst (leave_room sid rid rooms)) rid = afterLeave sid room"
    and "find (\<lambda>u. user_id u = req) (users room) = Some r \<Longrightarrow> isHost r \<Longrightarrow>
           map_of (fst (kick_user req rid sid ts rooms)) rid = afterLeave sid room"
    and "distinct (map fst rooms) \<Longrightarrow> map_of (fst (disconnect sid rooms)) rid = afterLeave sid room"
proof -
  show "map_of (fst (leave_room sid rid rooms)) rid = afterLeave sid room"
    using handleLeave_at[of rid sid rooms] room by (simp add: leave_room_fst)
  show "map_of (fst (kick_user req rid sid ts rooms)) rid = afterLeave sid room"
    if "find (\<lambda>u. user_id u = req) (users room) = Some r" "isHost r"
    using handleLeave_at[of rid sid rooms] room kick_user_host[OF room that, of sid ts] by simp
  show "map_of (fst (disconnect sid rooms)) rid = afterLeave sid room" if "distinct (map fst rooms)"
    using disconnect_at[OF that, of sid rid] room by simp
qed

text \<open>
  Claim C5.  In every state the server can reach from the empty map, each room has
  members and exactly one of them is host, and no room id occurs twice; \<open>create_room\<close>,
  \<open>join_room\<close>, \<open>leave_room\<close>, \<open>kick_user\<close> and \<open>disconnect\<close> each preserve that every room has
  exactly one host.  When a member leaves a room and members remain, the room keeps its
  history and its redo stack, the remaining members keep their order, and when the member
  that left was the host the first remaining member becomes host; when the last member
  leaves, the room is removed from the map, and its history and redo stack with it.
  This holds for the three ways of leaving alike: \<open>leave_room\<close>, a \<open>kick_user\<close> by the host of
  the room, and \<open>disconnect\<close>.
\<close>
theorem one_host_per_room:
  "host_inv (run evs []) \<and> distinct (map fst (run evs []))
   \<and> (host_inv rooms \<longrightarrow>
        host_inv (fst (create_room sid name rid col rooms))
      \<and> host_inv (fst (join_room sid rid name col rooms))
      \<and> host_inv (fst (leave_room sid rid rooms))
      \<and> host_inv (fst (kick_user req rid sid ts rooms))
      \<and> host_inv (fst (disconnect sid rooms)))
   \<and> (map_of rooms rid = Some room
        \<and> findIndex (\<lambda>u. user_id u = sid) (users room) = Some i
        \<and> splice1 i (users room) = b # rest
        \<and> room' = room\<lparr>users := (if isHost (users room ! i) then b\<lparr>isHost := True\<rparr> else b) # rest\<rparr>
      \<longrightarrow> map_of (fst (leave_room sid rid rooms)) rid = Some room'
        \<and> (find (\<lambda>u. user_id u = req) (users room) = Some r \<and> isHost r
             \<longrightarrow> map_of (fst (kick_user req rid sid ts rooms)) rid = Some room')
        \<and> (distinct (map fst rooms) \<longrightarrow> map_of (fst (disconnect sid rooms)) rid = Some room'))
   \<and> (map_of rooms rid = Some room
        \<and> findIndex (\<lambda>u. user_id u = sid) (users room) = Some i
        \<and> splice1 i (users room) = []
      \<longrightarrow> map_of (fst (leave_room sid rid rooms)) rid = None
        \<and> (find (\<lambda>u. user_id u = req) (users room) = Some r \<and> isHost r
             \<longrightarrow> map_of (fst (kick_user req rid sid ts rooms)) rid = None)
        \<and> (distinct (map fst rooms) \<longrightarrow> map_of (fst (disconnect sid rooms)) rid = None))"
proof -
  have inv: "host_inv (run evs []) \<and> distinct (map fst (run evs []))"
    using host_inv_run[OF host_inv_empty, of evs] distinct_run[of "[]" evs] by simp
  have pres: "host_inv rooms \<longrightarrow>
        host_inv (fst (create_room sid name rid col rooms))
      \<and> host_inv (fst (join_room sid rid name col rooms))
      \<and> host_inv (fst (leave_room sid rid rooms))
      \<and> host_inv (fst (kick_user req rid sid ts rooms))
      \<and> host_inv (fst (disconnect sid rooms))"
    using host_inv_create_room[of rooms sid name rid col] host_inv_join_room[of rooms sid rid name col]
      host_inv_leave_room[of rooms sid rid] host_inv_kick_user[of rooms req rid sid ts]
      host_inv_disconnect[of rooms sid]
    by blast
  have some: "map_of (fst (leave_room sid rid rooms)) rid = Some room'
        \<and> (find (\<lambda>u. user_id u = req) (users room) = Some r \<and> isHost r
             \<longrightarrow> map_of (fst (kick_user req rid sid ts rooms)) rid = Some room')
        \<and> (distinct (map fst rooms) \<longrightarrow> map_of (fst (disconnect sid rooms)) rid = Some room')"
    if "map_of rooms rid = Some room" "findIndex (\<lambda>u. user_id u = sid) (users room) = Some i"
      "splice1 i (users room) = b # rest"
      "room' = room\<lparr>users := (if isHost (users room ! i) then b\<lparr>isHost := True\<rparr> else b) # rest\<rparr>"
    using member_leaves(1)[OF that(1), where sid = sid]
      member_leaves(2)[OF that(1), where sid = sid and req = req and r = r and ts = ts]
      member_leaves(3)[OF that(1), where sid = sid]
      afterLeave_some[OF that(2,3)] that(4)
    by simp
  have none: "map_of (fst (leave_room sid rid rooms)) rid = None
        \<and> (find (\<lambda>u. user_id u = req) (users room) = Some r \<and> isHost r
             \<longrightarrow> map_of (fst (kick_user req rid sid ts rooms)) rid = None)
        \<and> (distinct (map fst rooms) \<longrightarrow> map_of (fst (disconnect sid rooms)) rid = None)"
    if "map_of rooms rid = Some room" "findIndex (\<lambda>u. user_id u = sid) (users room) = Some i"
      "splice1 i (users room) = []"
    using member_leaves(1)[OF that(1), where sid = sid]
      member_leaves(2)[OF that(1), where sid = sid and req = req and r = r and ts = ts]
      member_leaves(3)[OF that(1), where sid = sid]
      afterLeave_none[OF that(2,3)]
    by simp
  from inv pres some none show ?thesis by blast
qed

theorem one_host_per_room_witness:
  "host_inv (run [(''h'', CreateRoom ''Hana'' ''R'' ''#f87171''), (''b'', JoinRoom ''R'' ''Bo'' ''#fb923c''),
                  (''c'', JoinRoom ''R'' ''Cy'' ''#fbbf24''), (''h'', Disconnect)] [])
   \<and> host_inv (fst (kick_user ''h'' ''R'' ''c'' True [(''R'', threeRoom)]))
   \<and> map_of (fst (leave_room ''h'' ''R'' [(''R'', threeRoom)])) ''R''
       = Some (threeRoom\<lparr>users :=
           [\<lparr>user_id = ''b'', username = ''Bo'', isHost = True, user_color = ''#fb923c''\<rparr>,
            \<lparr>user_id = ''c'', username = ''Cy'', isHost = False, user_color = ''#fbbf24''\<rparr>]\<rparr>)
   \<and> map_of (fst (kick_user ''h'' ''R'' ''h'' True [(''R'', threeRoom)])) ''R''
       = Some (threeRoom\<lparr>users :=
           [\<lparr>user_id = ''b'', username = ''Bo'', isHost = True, user_color = ''#fb923c''\<rparr>,
            \<lparr>user_id = ''c'', username = ''Cy'', isHost = False, user_color = ''#fbbf24''\<rparr>]\<rparr>)
   \<and> map_of (fst (disconnect ''h'' [(''R'', threeRoom)])) ''R''
       = Some (threeRoom\<lparr>users :=
           [\<lparr>user_id = ''b'', username = ''Bo'', isHost = True, user_color = ''#fb923c''\<rparr>,
            \<lparr>user_id = ''c'', username = ''Cy'', isHost = False, user_color = ''#fbbf24''\<rparr>]\<rparr>)
   \<and> map_of (fst (kick_user ''h'' ''R'' ''c'' True [(''R'', threeRoom)])) ''R''
       = Some (threeRoom\<lparr>users :=
           [\<lparr>user_id = ''h'', username = ''Hana'', isHost = True, user_color = ''#f87171''\<rparr>,
            \<lparr>user_id = ''b'', username = ''Bo'', isHost = False, user_color = ''#fb923c''\<rparr>]\<rparr>)
   \<and> map_of (fst (leave_room ''h'' ''R'' [(''R'', emptyRoom)])) ''R'' = None
   \<and> map_of (fst (kick_user ''h'' ''R'' ''h'' True [(''R'', emptyRoom)])) ''R'' = None
   \<and> map_of (fst (disconnect ''h'' [(''R'', emptyRoom)])) ''R'' = None"
proof -
  let ?h = "\<lparr>user_id = ''h'', username = ''Hana'', isHost = True, user_color = ''#f87171''\<rparr>"
  let ?b = "\<lparr>user_id = ''b'', username = ''Bo'', isHost = False, user_color = ''#fb923c''\<rparr>"
  let ?c = "\<lparr>user_id = ''c'', username = ''Cy'', isHost = False, user_color = ''#fbbf24''\<rparr>"
  let ?evs = "[(''h'', CreateRoom ''Hana'' ''R'' ''#f87171''), (''b'', JoinRoom ''R'' ''Bo'' ''#fb923c''),
               (''c'', JoinRoom ''R'' ''Cy'' ''#fbbf24''), (''h'', Disconnect)]"
  have inv: "host_inv [(''R'', threeRoom)]"
    by (simp add: host_inv_def room_ok_def threeRoom_def)
  note H = one_host_per_room[of ?evs "[(''R'', threeRoom)]" "''h''" "''Hana''" "''R''" "''c''" "''h''" True
      threeRoom 0 ?b "[?c]" "threeRoom\<lparr>users := [?b\<lparr>isHost := True\<rparr>, ?c]\<rparr>" ?h]
  note C = one_host_per_room[of "[]" "[(''R'', threeRoom)]" "''c''" "''Hana''" "''R''" "''c''" "''h''" True
      threeRoom 2 ?h "[?b]" "threeRoom\<lparr>users := [?h, ?b]\<rparr>" ?h]
  note E = one_host_per_room[of "[]" "[(''R'', emptyRoom)]" "''h''" "''Hana''" "''R''" "''c''" "''h''" True
      emptyRoom 0 ?b "[]" emptyRoom ?h]
  from H inv have 1: "host_inv (run ?evs [])"
    and 2: "map_of (fst (leave_room ''h'' ''R'' [(''R'', threeRoom)])) ''R'' = Some (threeRoom\<lparr>users := [?b\<lparr>isHost := True\<rparr>, ?c]\<rparr>)"
    and 3: "map_of (fst (kick_user ''h'' ''R'' ''h'' True [(''R'', threeRoom)])) ''R'' = Some (threeRoom\<lparr>users := [?b\<lparr>isHost := True\<rparr>, ?c]\<rparr>)"
    and 4: "map_of (fst (disconnect ''h'' [(''R'', threeRoom)])) ''R'' = Some (threeRoom\<lparr>users := [?b\<lparr>isHost := True\<rparr>, ?c]\<rparr>)"
    by (simp_all add: threeRoom_def splice1_def)
  from C inv have 5: "host_inv (fst (kick_user ''h'' ''R'' ''c'' True [(''R'', threeRoom)]))"
    and 6: "map_of (fst (kick_user ''h'' ''R'' ''c'' True [(''R'', threeRoom)])) ''R'' = Some (threeRoom\<lparr>users := [?h, ?b]\<rparr>)"
    by (simp_all add: threeRoom_def splice1_def)
  from E have 7: "map_of (fst (leave_room ''h'' ''R'' [(''R'', emptyRoom)])) ''R'' = None"
    and 8: "map_of (fst (kick_user ''h'' ''R'' ''h'' True [(''R'', emptyRoom)])) ''R'' = None"
    and 9: "map_of (fst (disconnect ''h'' [(''R'', emptyRoom)])) ''R'' = None"
    by (simp_all add: emptyRoom_def splice1_def)
  from 1 2 3 4 5 6 7 8 9 show ?thesis by simp
qed

subsection \<open>The capacity of the history under all requests\<close>

lemma cap_inv_update:
  "cap_inv rooms \<Longrightarrow> room_capped room \<Longrightarrow> cap_inv (AList.update rid room rooms)"
  unfolding cap_inv_def by (auto dest: update_entries)

lemma cap_inv_delete: "cap_inv rooms \<Longrightarrow> cap_inv (AList.delete rid rooms)"
  unfolding cap_inv_def by (auto dest: delete_entries)

lemma cap_inv_lookup: "cap_inv rooms \<Longrightarrow> map_of rooms rid = Some room \<Longrightarrow> room_capped room"
  unfolding cap_inv_def by (auto dest: map_of_SomeD)

lemma cap_inv_handleLeave: "cap_inv rooms \<Longrightarrow> cap_inv (fst (handleLeave rid sid rooms))"
  by (auto simp: handleLeave_def Let_def room_capped_def split: option.splits
      intro!: cap_inv_update cap_inv_delete dest: cap_inv_lookup)

lemma cap_inv_create_room: "cap_inv rooms \<Longrightarrow> cap_inv (fst (create_room sid name rid col rooms))"
  by (simp add: create_room_def Let_def cap_inv_update room_capped_def)

lemma cap_inv_join_room: "cap_inv rooms \<Longrightarrow> cap_inv (fst (join_room sid rid name col rooms))"
  by (auto simp: join_room_def Let_def room_capped_def split: option.splits
      intro!: cap_inv_update dest: cap_inv_lookup)

lemma cap_inv_leave_room: "cap_inv rooms \<Longrightarrow> cap_inv (fst (leave_room sid rid rooms))"
  using cap_inv_handleLeave[of rooms rid sid]
  by (cases "handleLeave rid sid rooms") (simp add: leave_room_def)

lemma cap_inv_kick_user: "cap_inv rooms \<Longrightarrow> cap_inv (fst (kick_user sid rid target ts rooms))"
  using cap_inv_handleLeave[of rooms rid target]
  by (cases "handleLeave rid target rooms") (auto simp: kick_user_def split: option.splits)

lemma cap_inv_disconnect_room:
  "cap_inv (fst acc) \<Longrightarrow> cap_inv (fst (disconnect_room sid rid acc))"
  using cap_inv_handleLeave[of "fst acc" rid sid]
  by (cases "handleLeave rid sid (fst acc)") (auto simp: disconnect_room_def split: option.splits)

lemma cap_inv_fold_disconnect:
  "cap_inv (fst acc) \<Longrightarrow> cap_inv (fst (fold (disconnect_room sid) rids acc))"
proof (induction rids arbitrary: acc)
  case Nil
  then show ?case by simp
next
  case (Cons rid rids)
  from Cons.prems have "cap_inv (fst (disconnect_room sid rid acc))"
    by (rule cap_inv_disconnect_room)
  then show ?case using Cons.IH by simp
qed

lemma cap_inv_disconnect: "cap_inv rooms \<Longrightarrow> cap_inv (fst (disconnect sid rooms))"
  by (simp add: disconnect_def cap_inv_fold_disconnect)

lemma cap_inv_addToHistory: "cap_inv rooms \<Longrightarrow> cap_inv (addToHistory rid a rooms)"
  by (auto simp: addToHistory_def Let_def room_capped_def split: option.splits
      intro!: cap_inv_update dest: cap_inv_lookup)

lemma cap_inv_undo:
  assumes "cap_inv rooms"
  shows "cap_inv (fst (undo rid rooms))"
proof (cases "map_of rooms rid")
  case None
  with assms show ?thesis by (simp add: undo_def)
next
  case (Some room)
  from cap_inv_lookup[OF assms Some]
  have c: "length (history room) + length (redoStack room) \<le> 500"
    by (simp add: room_capped_def)
  show ?thesis
  proof (cases "history room = []")
    case True
    with Some assms show ?thesis by (simp add: undo_def)
  next
    case False
    then obtain xs x where x: "history room = xs @ [x]" by (cases "history room" rule: rev_cases) auto
    with c Some assms show ?thesis
      by (auto simp: undo_def Let_def room_capped_def intro!: cap_inv_update)
  qed
qed

lemma cap_inv_redo:
  assumes "cap_inv rooms"
  shows "cap_inv (fst (redo rid rooms))"
proof (cases "map_of rooms rid")
  case None
  with assms show ?thesis by (simp add: redo_def)
next
  case (Some room)
  from cap_inv_lookup[OF assms Some]
  have c: "length (history room) + length (redoStack room) \<le> 500"
    by (simp add: room_capped_def)
  show ?thesis
  proof (cases "redoStack room = []")
    case True
    with Some assms show ?thesis by (simp add: redo_def)
  next
    case False
    then obtain xs x where x: "redoStack room = xs @ [x]" by (cases "redoStack room" rule: rev_cases) auto
    with c Some assms show ?thesis
      by (auto simp: redo_def Let_def room_capped_def intro!: cap_inv_update)
  qed
qed

lemma cap_inv_handle: "cap_inv rooms \<Longrightarrow> cap_inv (fst (handle sid r rooms))"
  by (cases r)
    (simp_all add: cap_inv_create_room cap_inv_join_room cap_inv_leave_room
      cap_inv_kick_user cap_inv_disconnect cap_inv_addToHistory cap_inv_undo cap_inv_redo
      start_game_def relay_draw_line_def relay_cursor_move_def relay_chat_message_def submit_def)

lemma cap_inv_run: "cap_inv rooms \<Longrightarrow> cap_inv (run evs rooms)"
proof (induction evs arbitrary: rooms)
  case Nil
  then show ?case by simp
next
  case (Cons ev evs)
  obtain sid r where ev: "ev = (sid, r)" by (cases ev)
  from Cons.prems have "cap_inv (fst (handle sid r rooms))"
    by (rule cap_inv_handle)
  then show ?case using Cons.IH ev by simp
qed

text \<open>
  The capacity under all requests.  Whatever requests the server has handled since it
  started, the history of every room holds at most 500 actions: appends evict, and undo
  and redo only move actions between the history and the redo stack, whose lengths add
  up to at most 500.
\<close>
theorem history_never_exceeds_cap:
  assumes "map_of (run evs []) rid = Some room"
  shows "length (history room) \<le> 500"
proof -
  have "cap_inv []" by (simp add: cap_inv_def)
  then have "cap_inv (run evs [])" by (rule cap_inv_run)
  from cap_inv_lookup[OF this assms] show ?thesis by (simp add: room_capped_def)
qed

theorem history_never_exceeds_cap_witness:
  "map_of (run [(''h'', CreateRoom ''Hana'' ''R'' ''#f87171''), (''h'', Submit ''R'' (sampleAction clear 1)),
                (''h'', Undo ''R''), (''h'', Redo ''R'')] []) ''R''
     = Some (emptyRoom\<lparr>history := [sampleAction clear 1]\<rparr>)
   \<and> length (history (emptyRoom\<lparr>history := [sampleAction clear 1]\<rparr>)) \<le> 500"
proof -
  have r: "map_of (run [(''h'', CreateRoom ''Hana'' ''R'' ''#f87171''), (''h'', Submit ''R'' (sampleAction clear 1)),
                (''h'', Undo ''R''), (''h'', Redo ''R'')] []) ''R''
     = Some (emptyRoom\<lparr>history := [sampleAction clear 1]\<rparr>)"
    by (simp add: create_room_def submit_def addToHistory_def undo_def redo_def Let_def emptyRoom_def)
  from history_never_exceeds_cap[OF r] r show ?thesis by blast
qed

section \<open>Properties of the canvas\<close>

lemma replicate_numeral: "replicate (numeral k) x = x # replicate (pred_numeral k) x"
  by (simp add: numeral_eq_Suc)

subsection \<open>Pixels and positions\<close>

lemma posOf_bounds:
  assumes "inside W H q"
  shows "0 \<le> posOf W q" and "posOf W q + 3 < 4 * W * H"
proof -
  from assms have c: "0 \<le> fst q" "fst q < W" "0 \<le> snd q" "snd q < H"
    by (auto simp: inside_def)
  then have W: "0 < W" by linarith
  have "0 \<le> snd q * W" using c W by simp
  then show "0 \<le> posOf W q" using c by (simp add: posOf_def)
  have "snd q + 1 \<le> H" using c by simp
  then have "(snd q + 1) * W \<le> H * W" using W by (simp add: mult_right_mono)
  then have "snd q * W + fst q < H * W" using c by (simp add: algebra_simps)
  then show "posOf W q + 3 < 4 * W * H" by (simp add: posOf_def algebra_simps)
qed

lemma rows_apart:
  fixes W :: int
  assumes "r < r'" "0 \<le> a" "a < W" "0 \<le> b" "b < W"
  shows "r * W + a < r' * W + b"
proof -
  have "r + 1 \<le> r'" using assms(1) by simp
  moreover have "0 \<le> W" using assms by simp
  ultimately have "(r + 1) * W \<le> r' * W" by (rule mult_right_mono)
  then have "r * W + W \<le> r' * W" by (simp add: algebra_simps)
  with assms show ?thesis by simp
qed

lemma posOf_inj:
  assumes "inside W H q" "inside W H q'" "posOf W q = posOf W q'"
  shows "q = q'"
proof -
  from assms have c: "0 \<le> fst q" "fst q < W" "0 \<le> fst q'" "fst q' < W"
    by (auto simp: inside_def)
  from assms(3) have e: "snd q * W + fst q = snd q' * W + fst q'"
    by (simp add: posOf_def)
  have "\<not> snd q < snd q'" using rows_apart[OF _ c(1,2,3,4)] e by force
  moreover have "\<not> snd q' < snd q" using rows_apart[OF _ c(3,4,1,2)] e by force
  ultimately have "snd q = snd q'" by simp
  with e show ?thesis by (simp add: prod_eq_iff)
qed

lemma posOf_apart:
  assumes "inside W H q" "inside W H q'" "q \<noteq> q'"
  shows "posOf W q + 4 \<le> posOf W q' \<or> posOf W q' + 4 \<le> posOf W q"
proof -
  define a where "a = snd q * W + fst q"
  define b where "b = snd q' * W + fst q'"
  have ab: "posOf W q = 4 * a" "posOf W q' = 4 * b"
    by (simp_all add: posOf_def a_def b_def)
  have "posOf W q \<noteq> posOf W q'" using posOf_inj[OF assms(1,2)] assms(3) by blast
  then have "a \<noteq> b" using ab by simp
  then show ?thesis unfolding ab by arith
qed

lemma length_wr [simp]: "length (wr data i v) = length data"
  by (simp add: wr_def)

lemma length_setPixel [simp]: "length (setPixel data pos p) = length data"
  by (cases p) (simp add: setPixel_def)

lemma rd_wr_same: "0 \<le> i \<Longrightarrow> i < int (length data) \<Longrightarrow> rd (wr data i v) i = Some (clamp8 v)"
  by (simp add: rd_def wr_def)

lemma rd_wr_other: "i \<noteq> j \<Longrightarrow> rd (wr data i v) j = rd data j"
  by (simp add: rd_def wr_def nat_eq_iff)

lemma rd_setPixel_other:
  assumes "j < pos \<or> pos + 3 < j"
  shows "rd (setPixel data pos p) j = rd data j"
proof -
  obtain r g b a where p: "p = (r, g, b, a)" by (cases p)
  have n: "pos \<noteq> j" "pos + 1 \<noteq> j" "pos + 2 \<noteq> j" "pos + 3 \<noteq> j" using assms by auto
  show ?thesis
    unfolding p setPixel_def prod.case
    by (simp only: rd_wr_other[OF n(1)] rd_wr_other[OF n(2)] rd_wr_other[OF n(3)] rd_wr_other[OF n(4)])
qed

lemma pixelAt_setPixel_same:
  assumes "0 \<le> pos" "pos + 3 < int (length data)"
  shows "pixelAt (setPixel data pos p) pos = paintColour p"
proof -
  obtain r g b a where p: "p = (r, g, b, a)" by (cases p)
  let ?d1 = "wr data pos r"
  let ?d2 = "wr ?d1 (pos + 1) g"
  let ?d3 = "wr ?d2 (pos + 2) b"
  let ?d4 = "wr ?d3 (pos + 3) a"
  have r: "rd ?d4 pos = Some (clamp8 r)"
  proof -
    have "rd ?d4 pos = rd ?d1 pos" by (simp add: rd_wr_other)
    also have "\<dots> = Some (clamp8 r)" using assms by (intro rd_wr_same) auto
    finally show ?thesis .
  qed
  have g: "rd ?d4 (pos + 1) = Some (clamp8 g)"
  proof -
    have "rd ?d4 (pos + 1) = rd ?d2 (pos + 1)" by (simp add: rd_wr_other)
    also have "\<dots> = Some (clamp8 g)" using assms by (intro rd_wr_same) auto
    finally show ?thesis .
  qed
  have b: "rd ?d4 (pos + 2) = Some (clamp8 b)"
  proof -
    have "rd ?d4 (pos + 2) = rd ?d3 (pos + 2)" by (simp add: rd_wr_other)
    also have "\<dots> = Some (clamp8 b)" using assms by (intro rd_wr_same) auto
    finally show ?thesis .
  qed
  have a: "rd ?d4 (pos + 3) = Some (clamp8 a)"
    using assms by (intro rd_wr_same) auto
  show ?thesis
    unfolding p by (simp only: pixelAt_def setPixel_def paintColour_def prod.case r g b a)
qed

lemma pixelAt_setPixel_other:
  assumes "pos + 4 \<le> pos' \<or> pos' + 4 \<le> pos"
  shows "pixelAt (setPixel data pos p) pos' = pixelAt data pos'"
proof -
  have "rd (setPixel data pos p) pos' = rd data pos'"
       "rd (setPixel data pos p) (pos' + 1) = rd data (pos' + 1)"
       "rd (setPixel data pos p) (pos' + 2) = rd data (pos' + 2)"
       "rd (setPixel data pos p) (pos' + 3) = rd data (pos' + 3)"
    using assms by (auto intro!: rd_setPixel_other)
  then show ?thesis by (simp only: pixelAt_def)
qed

lemma finite_inside: "finite {q. inside W H q}"
proof -
  have "{q. inside W H q} \<subseteq> {0..<W} \<times> {0..<H}"
    by (auto simp: inside_def)
  then show ?thesis by (rule finite_subset) simp
qed

subsection \<open>One round of the loop\<close>

lemma fillLoop_Nil: "fillLoop W H start p [] data = Some data"
  by (subst fillLoop.simps) simp

lemma fillLoop_skip:
  assumes "\<not> inside W H q \<or> pixelAt data (posOf W q) \<noteq> start"
  shows "fillLoop W H start p (q # rest) data = fillLoop W H start p rest data"
  using assms
  by (subst fillLoop.simps) (cases q, auto simp: inside_def posOf_def Let_def)

lemma fillLoop_paint:
  assumes "inside W H q" "pixelAt data (posOf W q) = start"
  shows "fillLoop W H start p (q # rest) data
         = fillLoop W H start p (neighbours q @ rest) (setPixel data (posOf W q) p)"
  using assms
  by (subst fillLoop.simps) (cases q, auto simp: inside_def posOf_def Let_def neighbours_def)

subsection \<open>Invariants of a loop that returns\<close>

lemma fillLoop_invariant:
  assumes ret: "fillLoop W H start p stack data = Some d"
    and init: "I stack data"
    and skip: "\<And>q rest data. I (q # rest) data \<Longrightarrow>
                 \<not> inside W H q \<or> pixelAt data (posOf W q) \<noteq> start \<Longrightarrow> I rest data"
    and paint: "\<And>q rest data. I (q # rest) data \<Longrightarrow> inside W H q \<Longrightarrow>
                 pixelAt data (posOf W q) = start \<Longrightarrow>
                 I (neighbours q @ rest) (setPixel data (posOf W q) p)"
  shows "I [] d"
proof -
  define P where "P = (\<lambda>W' H' start' p' stack data d.
      W' = W \<and> H' = H \<and> start' = start \<and> p' = p \<and> I stack data \<longrightarrow> I [] d)"
  have "P W H start p stack data d"
  proof (rule fillLoop.raw_induct[where P = P, OF _ ret], goal_cases)
    case (1 loop W' H' start' p' stack data d)
    show ?case
      unfolding P_def
    proof (intro impI, elim conjE)
      assume eq: "W' = W" "H' = H" "start' = start" "p' = p" and I: "I stack data"
      show "I [] d"
      proof (cases stack)
        case Nil
        with 1(2) I show ?thesis by simp
      next
        case (Cons q rest)
        obtain cx cy where q: "q = (cx, cy)" by (cases q)
        show ?thesis
        proof (cases "inside W H q \<and> pixelAt data (posOf W q) = start")
          case True
          then have "loop W H start p (neighbours q @ rest) (setPixel data (posOf W q) p) = Some d"
            using 1(2) Cons q eq
            by (auto simp: inside_def posOf_def Let_def neighbours_def split: if_splits)
          then have "P W H start p (neighbours q @ rest) (setPixel data (posOf W q) p) d"
            by (rule 1(1))
          moreover have "I (neighbours q @ rest) (setPixel data (posOf W q) p)"
            using paint[of q rest data] I Cons True by simp
          ultimately show ?thesis unfolding P_def by simp
        next
          case False
          then have "loop W H start p rest data = Some d"
            using 1(2) Cons q eq
            by (auto simp: inside_def posOf_def Let_def split: if_splits)
          then have "P W H start p rest data d"
            by (rule 1(1))
          moreover have "I rest data"
            using skip[of q rest data] I Cons False by blast
          ultimately show ?thesis unfolding P_def by simp
        qed
      qed
    qed
  qed
  then show ?thesis using init unfolding P_def by simp
qed

lemma fillLoop_length:
  assumes "fillLoop W H start p stack data = Some d"
  shows "length d = length data"
  by (rule fillLoop_invariant[OF assms, where I = "\<lambda>stack data'. length data' = length data"]) simp_all

subsection \<open>Termination\<close>

lemma matching_paint:
  assumes len: "int (length data) = 4 * W * H"
    and q: "inside W H q" "pixelAt data (posOf W q) = start"
    and ne: "paintColour p \<noteq> start"
  shows "matching W H start (setPixel data (posOf W q) p) < matching W H start data"
proof -
  let ?d = "setPixel data (posOf W q) p"
  let ?A = "{r. inside W H r \<and> pixelAt data (posOf W r) = start}"
  let ?B = "{r. inside W H r \<and> pixelAt ?d (posOf W r) = start}"
  have same: "pixelAt ?d (posOf W q) = paintColour p"
    using posOf_bounds[OF q(1)] len by (intro pixelAt_setPixel_same) auto
  have other: "pixelAt ?d (posOf W r) = pixelAt data (posOf W r)" if "inside W H r" "r \<noteq> q" for r
    using posOf_apart[OF q(1) that(1)] that(2) by (intro pixelAt_setPixel_other) auto
  have "r \<in> ?A - {q}" if "r \<in> ?B" for r
  proof (cases "r = q")
    case True
    with that same ne show ?thesis by simp
  next
    case False
    with that other[of r] show ?thesis by simp
  qed
  then have "?B \<subseteq> ?A - {q}" by blast
  moreover have "q \<in> ?A" using q by simp
  ultimately have "?B \<subset> ?A" by blast
  moreover have "finite ?A" using finite_inside[of W H] by simp
  ultimately show ?thesis unfolding matching_def by (rule psubset_card_mono[rotated])
qed

lemma fillLoop_terminates:
  assumes "int (length data) = 4 * W * H" "paintColour p \<noteq> start"
  shows "\<exists>d. fillLoop W H start p stack data = Some d"
  using assms(1)
proof (induction "4 * matching W H start data + length stack" arbitrary: stack data rule: less_induct)
  case less
  show ?case
  proof (cases stack)
    case Nil
    then show ?thesis by (simp add: fillLoop_Nil)
  next
    case (Cons q rest)
    show ?thesis
    proof (cases "inside W H q \<and> pixelAt data (posOf W q) = start")
      case True
      let ?d = "setPixel data (posOf W q) p"
      have m: "matching W H start ?d < matching W H start data"
        using matching_paint[OF less.prems _ _ assms(2)] True by blast
      have "4 * matching W H start ?d + length (neighbours q @ rest)
            < 4 * matching W H start data + length stack"
        using m Cons by (simp add: neighbours_def)
      moreover have "int (length ?d) = 4 * W * H" using less.prems by simp
      ultimately have "\<exists>d. fillLoop W H start p (neighbours q @ rest) ?d = Some d"
        by (rule less.hyps)
      then show ?thesis using True Cons by (simp add: fillLoop_paint)
    next
      case False
      have "4 * matching W H start data + length rest < 4 * matching W H start data + length stack"
        using Cons by simp
      then have "\<exists>d. fillLoop W H start p rest data = Some d"
        using less.prems by (rule less.hyps)
      then show ?thesis using False Cons by (simp add: fillLoop_skip)
    qed
  qed
qed


lemma fillLoop_keeps_painted:
  assumes ret: "fillLoop W H start p stack data = Some d"
    and len: "int (length data) = 4 * W * H"
    and q: "inside W H q" "pixelAt data (posOf W q) = paintColour p"
  shows "pixelAt d (posOf W q) = paintColour p"
proof -
  define I where "I = (\<lambda>(stack :: (int \<times> int) list) data'.
      int (length data') = 4 * W * H \<and> pixelAt data' (posOf W q) = paintColour p)"
  have "I [] d"
  proof (rule fillLoop_invariant[OF ret, where I = I])
    show "I stack data" using len q by (simp add: I_def)
  next
    fix r rest data'
    assume "I (r # rest) data'"
    then show "I rest data'" by (simp add: I_def)
  next
    fix r rest data'
    assume I: "I (r # rest) data'" and r: "inside W H r" "pixelAt data' (posOf W r) = start"
    let ?d = "setPixel data' (posOf W r) p"
    have len': "int (length data') = 4 * W * H" using I by (simp add: I_def)
    have "pixelAt ?d (posOf W q) = paintColour p"
    proof (cases "q = r")
      case True
      then show ?thesis
        using posOf_bounds[OF r(1)] len' by (simp add: pixelAt_setPixel_same)
    next
      case False
      then have "pixelAt ?d (posOf W q) = pixelAt data' (posOf W q)"
        using posOf_apart[OF r(1) q(1)] by (intro pixelAt_setPixel_other) auto
      with I show ?thesis by (simp add: I_def)
    qed
    then show "I (neighbours r @ rest) ?d" using len' by (simp add: I_def)
  qed
  then show ?thesis by (simp add: I_def)
qed

subsection \<open>The fill colour against the colour of the seed\<close>

lemma unat_byte: "n \<le> 255 \<Longrightarrow> unat (of_nat n :: byte) = n"
  by (simp add: unat_of_nat)

lemma clamp8_byte: "n \<le> 255 \<Longrightarrow> clamp8 (Some n) = of_nat n"
  by (simp add: clamp8_def)

lemma sameNumber_clamp8: "n \<le> 255 \<Longrightarrow> sameNumber (Some n) (Some (clamp8 (Some n)))"
  by (simp add: sameNumber_def clamp8_byte unat_byte)

lemma paint_differs:
  assumes "R \<le> 255" "G \<le> 255" "Bl \<le> 255"
    and "\<not> (sameNumber (Some R) sR \<and> sameNumber (Some G) sG
            \<and> sameNumber (Some Bl) sB \<and> sameNumber (Some 255) sA)"
  shows "paintColour (Some R, Some G, Some Bl, Some 255) \<noteq> (sR, sG, sB, sA)"
proof
  assume "paintColour (Some R, Some G, Some Bl, Some 255) = (sR, sG, sB, sA)"
  then have "sR = Some (clamp8 (Some R))" "sG = Some (clamp8 (Some G))"
    "sB = Some (clamp8 (Some Bl))" "sA = Some (clamp8 (Some 255))"
    by (simp_all add: paintColour_def)
  then have "sameNumber (Some R) sR \<and> sameNumber (Some G) sG
            \<and> sameNumber (Some Bl) sB \<and> sameNumber (Some 255) sA"
    using assms(1-3) by (simp add: sameNumber_clamp8)
  with assms(4) show False by simp
qed

subsection \<open>The four ways floodFill ends\<close>

lemma floodFill_unfold:
  "floodFill B c x y col =
     (case matchDigits (computedColor B col) of
        None \<Rightarrow> Some (Normal, c)
      | Some rgba \<Rightarrow>
          if canvas_width c = 0 \<or> canvas_height c = 0 then Some (Thrown ''IndexSizeError'', c)
          else if sameColour (paintOf rgba) (seedColour c x y) then Some (Normal, c)
          else map_option (\<lambda>data'. (Normal, c\<lparr>bitmap := data'\<rparr>))
                 (fillLoop (int (canvas_width c)) (int (canvas_height c)) (seedColour c x y)
                    (paintOf rgba) [(\<lfloor>x\<rfloor>, \<lfloor>y\<rfloor>)] (bitmap c)))"
  unfolding floodFill_def Let_def sameColour_def paintOf_def seedColour_def
  by (simp split: option.split prod.split)

lemma floodFill_no_digits:
  "matchDigits (computedColor B col) = None \<Longrightarrow> floodFill B c x y col = Some (Normal, c)"
  by (simp add: floodFill_unfold)

lemma floodFill_empty_canvas:
  "matchDigits (computedColor B col) = Some rgba \<Longrightarrow> canvas_width c = 0 \<or> canvas_height c = 0
   \<Longrightarrow> floodFill B c x y col = Some (Thrown ''IndexSizeError'', c)"
  by (simp add: floodFill_unfold)

lemma floodFill_same_colour:
  assumes "matchDigits (computedColor B col) = Some rgba" "canvas_width c \<noteq> 0" "canvas_height c \<noteq> 0"
    and "sameColour (paintOf rgba) (seedColour c x y)"
  shows "floodFill B c x y col = Some (Normal, c)"
  using assms by (simp add: floodFill_unfold)

lemma floodFill_loop:
  assumes "matchDigits (computedColor B col) = Some rgba" "canvas_width c \<noteq> 0" "canvas_height c \<noteq> 0"
    and "\<not> sameColour (paintOf rgba) (seedColour c x y)"
  shows "floodFill B c x y col =
     map_option (\<lambda>data'. (Normal, c\<lparr>bitmap := data'\<rparr>))
       (fillLoop (int (canvas_width c)) (int (canvas_height c)) (seedColour c x y) (paintOf rgba)
          [(\<lfloor>x\<rfloor>, \<lfloor>y\<rfloor>)] (bitmap c))"
  using assms by (simp add: floodFill_unfold)

lemma floodFill_loop_result:
  assumes "matchDigits (computedColor B col) = Some rgba" "canvas_width c \<noteq> 0" "canvas_height c \<noteq> 0"
    and "\<not> sameColour (paintOf rgba) (seedColour c x y)"
    and "floodFill B c x y col = Some (k, c')"
  obtains d where
    "fillLoop (int (canvas_width c)) (int (canvas_height c)) (seedColour c x y) (paintOf rgba)
       [(\<lfloor>x\<rfloor>, \<lfloor>y\<rfloor>)] (bitmap c) = Some d"
    "c' = c\<lparr>bitmap := d\<rparr>" "k = Normal"
proof -
  from assms(5) floodFill_loop[OF assms(1-4)]
  have "map_option (\<lambda>data'. (Normal, c\<lparr>bitmap := data'\<rparr>))
       (fillLoop (int (canvas_width c)) (int (canvas_height c)) (seedColour c x y) (paintOf rgba)
          [(\<lfloor>x\<rfloor>, \<lfloor>y\<rfloor>)] (bitmap c)) = Some (k, c')"
    by simp
  then show ?thesis using that by (auto simp: map_option_eq_Some)
qed

lemma paintOf_bytes:
  assumes "byteColour B col" "matchDigits (computedColor B col) = Some rgba"
  obtains R G Bl where "paintOf rgba = (Some R, Some G, Some Bl, Some 255)"
    "R \<le> 255" "G \<le> 255" "Bl \<le> 255"
proof -
  from assms have l: "3 \<le> length rgba" and a: "list_all (\<lambda>n. n \<le> 255) (take 3 rgba)"
    by (simp_all add: byteColour_def)
  from a have "\<forall>i<3. rgba ! i \<le> 255"
    using l by (auto simp: list_all_length)
  then have "rgba ! 0 \<le> 255" "rgba ! 1 \<le> 255" "rgba ! 2 \<le> 255" by simp_all
  moreover have "paintOf rgba = (Some (rgba ! 0), Some (rgba ! 1), Some (rgba ! 2), Some 255)"
    using l by (auto simp: paintOf_def element_def)
  ultimately show ?thesis using that by blast
qed

lemma byte_paint_differs:
  assumes "byteColour B col" "matchDigits (computedColor B col) = Some rgba"
    and "\<not> sameColour (paintOf rgba) s"
  shows "paintColour (paintOf rgba) \<noteq> s"
proof -
  obtain R G Bl where p: "paintOf rgba = (Some R, Some G, Some Bl, Some 255)"
    and b: "R \<le> 255" "G \<le> 255" "Bl \<le> 255"
    using paintOf_bytes[OF assms(1,2)] by blast
  obtain sR sG sB sA where s: "s = (sR, sG, sB, sA)" by (cases s)
  from assms(3) have "\<not> (sameNumber (Some R) sR \<and> sameNumber (Some G) sG
            \<and> sameNumber (Some Bl) sB \<and> sameNumber (Some 255) sA)"
    unfolding p s sameColour_def by simp
  from paint_differs[OF b this] show ?thesis unfolding p s .
qed

lemma byte_paint_same:
  assumes "byteColour B col" "matchDigits (computedColor B col) = Some rgba"
  shows "sameColour (paintOf rgba) (paintColour (paintOf rgba))"
proof -
  obtain R G Bl where p: "paintOf rgba = (Some R, Some G, Some Bl, Some 255)"
    and b: "R \<le> 255" "G \<le> 255" "Bl \<le> 255"
    using paintOf_bytes[OF assms(1,2)] by blast
  show ?thesis
    unfolding p using b by (simp add: sameColour_def paintColour_def sameNumber_clamp8)
qed

lemma seedColour_posOf: "seedColour c x y = pixelAt (bitmap c) (posOf (int (canvas_width c)) (\<lfloor>x\<rfloor>, \<lfloor>y\<rfloor>))"
  by (simp add: seedColour_def posOf_def)

lemma wf_canvas_length: "wf_canvas c \<Longrightarrow> int (length (bitmap c)) = 4 * int (canvas_width c) * int (canvas_height c)"
  by (simp add: wf_canvas_def)

lemma floodFill_frame:
  assumes "floodFill B c x y col = Some (k, c')"
  shows "c' = c\<lparr>bitmap := bitmap c'\<rparr> \<and> length (bitmap c') = length (bitmap c)"
proof (cases "matchDigits (computedColor B col)")
  case None
  with assms show ?thesis by (simp add: floodFill_no_digits)
next
  case (Some rgba)
  show ?thesis
  proof (cases "canvas_width c = 0 \<or> canvas_height c = 0")
    case True
    with assms Some show ?thesis by (simp add: floodFill_empty_canvas)
  next
    case False
    show ?thesis
    proof (cases "sameColour (paintOf rgba) (seedColour c x y)")
      case True
      with assms Some False show ?thesis by (simp add: floodFill_same_colour)
    next
      case ne: False
      from False have nz: "canvas_width c \<noteq> 0" "canvas_height c \<noteq> 0" by simp_all
      obtain d where
        d: "fillLoop (int (canvas_width c)) (int (canvas_height c)) (seedColour c x y) (paintOf rgba)
              [(\<lfloor>x\<rfloor>, \<lfloor>y\<rfloor>)] (bitmap c) = Some d" and c': "c' = c\<lparr>bitmap := d\<rparr>"
        using floodFill_loop_result[OF Some nz ne assms] by blast
      from fillLoop_length[OF d] c' show ?thesis by simp
    qed
  qed
qed


lemma floodFill_returns:
  assumes wf: "wf_canvas c" and col: "byteColour B col"
  shows "\<exists>r. floodFill B c x y col = Some r"
proof (cases "matchDigits (computedColor B col)")
  case None
  then show ?thesis by (simp add: floodFill_no_digits)
next
  case (Some rgba)
  show ?thesis
  proof (cases "canvas_width c = 0 \<or> canvas_height c = 0")
    case True
    with Some show ?thesis by (simp add: floodFill_empty_canvas)
  next
    case False
    show ?thesis
    proof (cases "sameColour (paintOf rgba) (seedColour c x y)")
      case True
      with Some False show ?thesis by (simp add: floodFill_same_colour)
    next
      case ne: False
      have "paintColour (paintOf rgba) \<noteq> seedColour c x y"
        by (rule byte_paint_differs[OF col Some ne])
      from fillLoop_terminates[OF wf_canvas_length[OF wf] this]
      obtain d where "fillLoop (int (canvas_width c)) (int (canvas_height c)) (seedColour c x y) (paintOf rgba)
              [(\<lfloor>x\<rfloor>, \<lfloor>y\<rfloor>)] (bitmap c) = Some d" by blast
      then show ?thesis using floodFill_loop[OF Some _ _ ne] False by simp
    qed
  qed
qed

lemma floodFill_idem:
  assumes wf: "wf_canvas c" and col: "byteColour B col"
    and ret: "floodFill B c x y col = Some (k, c')"
  shows "floodFill B c' x y col = Some (k, c')"
proof (cases "matchDigits (computedColor B col)")
  case None
  with ret show ?thesis by (simp add: floodFill_no_digits)
next
  case (Some rgba)
  show ?thesis
  proof (cases "canvas_width c = 0 \<or> canvas_height c = 0")
    case True
    with ret Some show ?thesis by (simp add: floodFill_empty_canvas)
  next
    case False
    let ?W = "int (canvas_width c)" and ?H = "int (canvas_height c)"
    let ?seed = "(\<lfloor>x\<rfloor>, \<lfloor>y\<rfloor>)"
    show ?thesis
    proof (cases "sameColour (paintOf rgba) (seedColour c x y)")
      case True
      with ret Some False show ?thesis by (simp add: floodFill_same_colour)
    next
      case ne: False
      from False have nz: "canvas_width c \<noteq> 0" "canvas_height c \<noteq> 0" by simp_all
      obtain d where
        d: "fillLoop ?W ?H (seedColour c x y) (paintOf rgba) [?seed] (bitmap c) = Some d"
        and c': "c' = c\<lparr>bitmap := d\<rparr>" and k: "k = Normal"
        using floodFill_loop_result[OF Some nz ne ret] by blast
      show ?thesis
      proof (cases "inside ?W ?H ?seed")
        case out: False
        then have "d = bitmap c"
          using d by (simp add: fillLoop_skip fillLoop_Nil)
        with c' have "c' = c" by simp
        with ret show ?thesis by simp
      next
        case True
        have len: "int (length (bitmap c)) = 4 * ?W * ?H" by (rule wf_canvas_length[OF wf])
        let ?pos = "posOf ?W ?seed"
        let ?d1 = "setPixel (bitmap c) ?pos (paintOf rgba)"
        have d1: "fillLoop ?W ?H (seedColour c x y) (paintOf rgba) (neighbours ?seed @ []) ?d1 = Some d"
          using d True by (simp add: fillLoop_paint seedColour_posOf)
        have p1: "pixelAt ?d1 ?pos = paintColour (paintOf rgba)"
          using posOf_bounds[OF True] len by (intro pixelAt_setPixel_same) auto
        have "pixelAt d ?pos = paintColour (paintOf rgba)"
          by (rule fillLoop_keeps_painted[OF d1 _ True p1]) (simp add: len)
        then have sc: "seedColour c' x y = paintColour (paintOf rgba)"
          using c' by (simp add: seedColour_posOf)
        have "sameColour (paintOf rgba) (seedColour c' x y)"
          unfolding sc by (rule byte_paint_same[OF col Some])
        moreover have "canvas_width c' \<noteq> 0" "canvas_height c' \<noteq> 0" using c' False by simp_all
        ultimately show ?thesis using k by (simp add: floodFill_same_colour[OF Some])
      qed
    qed
  qed
qed





lemmas canvas_eval = applyAction_def floodFill_def clearCanvas_def
  matchDigits_def isDigit_def Number_def element_def pixelAt_def rd_def sameNumber_def
  setPixel_def wr_def clamp8_def Let_def drawShape_def drawStroke_def
  set_strokeStyle_def set_lineWidth_def ctx_beginPath_def ctx_moveTo_def ctx_lineTo_def
  ctx_arc_def ctx_closePath_def ctx_stroke_def ctx_strokeRect_def penOf_def
  newCanvas_def opaqueBrowser_def sampleBrowser_def
  replicate_numeral twoPixels_def



lemma neighbours_sym: "q' \<in> set (neighbours q) \<Longrightarrow> q \<in> set (neighbours q')"
  by (auto simp: neighbours_def)

lemma fillLoop_never_returns:
  assumes len: "int (length data) = 4 * W * H"
    and same: "paintColour p = start"
    and q: "inside W H q" "pixelAt data (posOf W q) = start"
    and q': "q' \<in> set (neighbours q)" "inside W H q'" "pixelAt data (posOf W q') = start"
    and st: "q \<in> set stack"
  shows "fillLoop W H start p stack data = None"
proof (rule ccontr)
  assume "fillLoop W H start p stack data \<noteq> None"
  then obtain d where ret: "fillLoop W H start p stack data = Some d" by blast
  define I where "I = (\<lambda>stack data.
      int (length data) = 4 * W * H
    \<and> (\<exists>r r'. r \<in> set stack \<and> inside W H r \<and> pixelAt data (posOf W r) = start
          \<and> r' \<in> set (neighbours r) \<and> inside W H r' \<and> pixelAt data (posOf W r') = start))"
  have "I [] d"
  proof (rule fillLoop_invariant[OF ret, where I = I])
    show "I stack data" unfolding I_def using len q q' st by blast
  next
    fix s rest data
    assume I: "I (s # rest) data" and s: "\<not> inside W H s \<or> pixelAt data (posOf W s) \<noteq> start"
    from I obtain r r' where r: "r \<in> set (s # rest)" "inside W H r" "pixelAt data (posOf W r) = start"
      "r' \<in> set (neighbours r)" "inside W H r'" "pixelAt data (posOf W r') = start"
      unfolding I_def by blast
    from r(1-3) s have "r \<in> set rest" by auto
    with r I show "I rest data" unfolding I_def by blast
  next
    fix s rest data
    assume I: "I (s # rest) data" and s: "inside W H s" "pixelAt data (posOf W s) = start"
    let ?d = "setPixel data (posOf W s) p"
    have len': "int (length data) = 4 * W * H" using I by (simp add: I_def)
    have keep: "pixelAt ?d (posOf W t) = pixelAt data (posOf W t)" if "inside W H t" for t
    proof (cases "t = s")
      case True
      then show ?thesis
        using posOf_bounds[OF s(1)] len' s(2) same by (simp add: pixelAt_setPixel_same)
    next
      case False
      then show ?thesis
        using posOf_apart[OF s(1) that] by (intro pixelAt_setPixel_other) auto
    qed
    from I obtain r r' where r: "r \<in> set (s # rest)" "inside W H r" "pixelAt data (posOf W r) = start"
      "r' \<in> set (neighbours r)" "inside W H r'" "pixelAt data (posOf W r') = start"
      unfolding I_def by blast
    have "\<exists>u u'. u \<in> set (neighbours s @ rest) \<and> inside W H u \<and> pixelAt ?d (posOf W u) = start
          \<and> u' \<in> set (neighbours u) \<and> inside W H u' \<and> pixelAt ?d (posOf W u') = start"
    proof (cases "r = s")
      case True
      have "r' \<in> set (neighbours s @ rest)" using r(4) True by simp
      moreover have "s \<in> set (neighbours r')" using r(4) True by (simp add: neighbours_sym)
      ultimately show ?thesis using r(5,6) s keep by metis
    next
      case False
      with r(1) have "r \<in> set (neighbours s @ rest)" by simp
      then show ?thesis using r(2-6) keep by metis
    qed
    then show "I (neighbours s @ rest) ?d" unfolding I_def using len' by simp
  qed
  then show False by (simp add: I_def)
qed

lemma floodFill_bluePixels: "floodFill opaqueBrowser bluePixels 0 0 ''lch(50 100 300)'' = None"
proof -
  let ?start = "(Some 50, Some 100, Some 255, Some 255) :: rgba"
  let ?p = "(Some 50, Some 100, Some 300, Some 255) :: paint"
  have m: "matchDigits (computedColor opaqueBrowser ''lch(50 100 300)'') = Some [50, 100, 300]"
    by (simp add: canvas_eval)
  have p: "paintOf [50, 100, 300] = ?p"
    by (simp add: paintOf_def element_def)
  have s: "seedColour bluePixels 0 0 = ?start"
    by (simp add: seedColour_def bluePixels_def canvas_eval)
  have ne: "\<not> sameColour (paintOf [50, 100, 300]) (seedColour bluePixels 0 0)"
    unfolding p s by (simp add: sameColour_def sameNumber_def)
  have nz: "canvas_width bluePixels \<noteq> 0" "canvas_height bluePixels \<noteq> 0"
    by (simp_all add: bluePixels_def twoPixels_def newCanvas_def)
  have cw: "int (canvas_width bluePixels) = 2" "int (canvas_height bluePixels) = 1"
    "bitmap bluePixels = [50, 100, 255, 255, 50, 100, 255, 255]"
    by (simp_all add: bluePixels_def twoPixels_def newCanvas_def)
  have "fillLoop 2 1 ?start ?p [(0, 0)] [50, 100, 255, 255, 50, 100, 255, 255] = None"
  proof (rule fillLoop_never_returns[where q = "(0, 0)" and q' = "(1, 0)"])
    show "paintColour ?p = ?start" by (simp add: paintColour_def clamp8_def)
  qed (simp_all add: inside_def posOf_def pixelAt_def rd_def neighbours_def)
  then show ?thesis
    unfolding floodFill_loop[OF m nz ne] cw p s floor_zero by simp
qed

text \<open>
  Claim C10, at an input where the loop does not end.  The relay forwards a fill of the
  colour \<open>lch(50 100 300)\<close>, whose computed form has the numbers 50, 100 and 300.  On a
  canvas of two pixels that a first fill painted \<open>(50, 100, 255, 255)\<close>, the comparison
  \<^verbatim>\<open>fillB === startB\<close> is \<open>300 = 255\<close>, so \<open>floodFill\<close> does not return early; the store of
  300 is clamped to 255, so a repainted pixel still has the seed's colour, and the two
  pixels push each other onto the stack for ever: \<open>floodFill\<close> never returns, and neither
  does a redraw of the two fills.
\<close>
theorem floodFill_unclamped_loops:
  "redrawCanvas opaqueBrowser [fillAt 0 0 ''rgb(50, 100, 255)''] (newCanvas 2 1) = Some (Normal, bluePixels)
   \<and> floodFill opaqueBrowser bluePixels 0 0 ''lch(50 100 300)'' = None
   \<and> redrawCanvas opaqueBrowser [fillAt 0 0 ''rgb(50, 100, 255)'', fillAt 0 0 ''lch(50 100 300)'']
        (newCanvas 2 1) = None"
proof -
  have 1: "applyAction opaqueBrowser (fillAt 0 0 ''rgb(50, 100, 255)'') (clearCanvas (newCanvas 2 1))
        = Some (Normal, bluePixels)"
    by (simp add: fillAt_def bluePixels_def canvas_eval fillLoop.simps)
  have 2: "applyAction opaqueBrowser (fillAt 0 0 ''lch(50 100 300)'') bluePixels = None"
    using floodFill_bluePixels by (simp add: applyAction_def fillAt_def)
  show ?thesis
    by (simp only: redrawCanvas_def replay.simps 1 2 floodFill_bluePixels
        option.case prod.case completion.case simp_thms)
qed

text \<open>
  Termination for colours of 8-bit channels.  On a well-formed canvas, \<open>floodFill\<close>
  returns for every seed point and every fill colour whose computed form starts with
  three numbers up to 255 (or has no digits at all): every repainted pixel then stops
  matching the seed's colour, so the number of matching pixels, counted four times, plus
  the height of the stack decreases in every round of the loop.
\<close>
theorem floodFill_terminates:
  assumes "wf_canvas c" "byteColour B col"
  shows "\<exists>k c'. floodFill B c x y col = Some (k, c')"
  using floodFill_returns[OF assms, of x y] by auto

theorem floodFill_terminates_witness:
  "wf_canvas bluePixels \<and> byteColour opaqueBrowser ''rgb(255, 0, 0)''
   \<and> (\<exists>k c'. floodFill opaqueBrowser bluePixels 1 0 ''rgb(255, 0, 0)'' = Some (k, c'))"
proof -
  have wf: "wf_canvas bluePixels"
    by (simp add: wf_canvas_def bluePixels_def twoPixels_def newCanvas_def)
  have b: "byteColour opaqueBrowser ''rgb(255, 0, 0)''"
    by (simp add: byteColour_def canvas_eval)
  from floodFill_terminates[OF wf b, of 1 0] wf b show ?thesis by blast
qed

lemma drawShape_strokes:
  "bitmap (drawShape B c d) =
     strokeOutline B (penOf (drawShape B c d)) (shapeOutline d)
       (canvas_width c) (canvas_height c) (bitmap c)"
  by (cases "shape_type d")
    (simp_all add: drawShape_def shapeOutline_def Let_def ctx_stroke_def ctx_strokeRect_def
      ctx_arc_def ctx_moveTo_def ctx_lineTo_def ctx_closePath_def ctx_beginPath_def
      set_lineWidth_def set_strokeStyle_def penOf_def)

lemma drawShape_isFilled: "drawShape B c (d\<lparr>isFilled := f\<rparr>) = drawShape B c d"
  by (cases "shape_type d") (simp_all add: drawShape_def Let_def)

lemma rect_corners:
  assumes "shape_type d = rect"
  shows "vertices (shapeOutline d) = spec_box_corners (startPoint d) (endPoint d)"
proof -
  have "{(a, b), (c, b), (c, e), (a, e)} = {(min a c, min b e), (max a c, min b e),
          (max a c, max b e), (min a c, max b e)}" for a b c e :: real
    by (cases "a \<le> c"; cases "b \<le> e") (auto simp: min_def max_def)
  then show ?thesis
    using assms
    by (simp add: shapeOutline_def spec_box_corners_def spec_left_def spec_right_def
        spec_top_def spec_bottom_def)
qed

lemma circle_outline:
  assumes "shape_type d = circle"
  shows "shapeOutline d = PathOutline [Arc (px (startPoint d)) (py (startPoint d))
           (sqrt ((px (endPoint d) - px (startPoint d))\<^sup>2 + (py (endPoint d) - py (startPoint d))\<^sup>2))
           0 (2 * pi)]"
  using assms by (simp add: shapeOutline_def Let_def power2_eq_square)

lemma triangle_outline:
  assumes "shape_type d = triangle"
  shows "shapeOutline d = PathOutline
           [MoveTo ((px (startPoint d) + px (endPoint d)) / 2) (py (startPoint d)),
            LineTo (px (startPoint d)) (py (endPoint d)),
            LineTo (px (endPoint d)) (py (endPoint d)),
            ClosePath]"
  using assms by (simp add: shapeOutline_def Let_def field_simps)

lemma triangle_corners:
  assumes "shape_type d = triangle" "py (startPoint d) \<le> py (endPoint d)"
  shows "vertices (shapeOutline d) = spec_triangle_corners (startPoint d) (endPoint d)"
proof -
  have "{(a, e), (c, e)} = {(min a c, e), (max a c, e)}" for a c e :: real
    by (cases "a \<le> c") (auto simp: min_def max_def)
  moreover have "min a c + max a c = a + c" for a c :: real
    by (simp add: min_def max_def)
  ultimately show ?thesis
    using assms
    by (simp add: triangle_outline spec_triangle_corners_def spec_left_def spec_right_def
        spec_top_def spec_bottom_def insert_commute)
qed

text \<open>
  What \<open>drawShape\<close> strokes.  It strokes the outline \<open>shapeOutline\<close> with the pen it has just
  set, and the fill flag changes nothing.  For a rectangle the outline has the corners of
  the bounding box of the start and the end point; for a circle it is the full arc around
  the start point whose radius is the Euclidean distance from start to end; for a
  triangle it runs from the midpoint on the start point's row to the two ends of the end
  point's row, which is the apex on the top edge of the bounding box and the base on its
  bottom edge when the end point is not above the start point.
\<close>
theorem shape_outlines:
  "bitmap (drawShape B c d) =
     strokeOutline B (penOf (drawShape B c d)) (shapeOutline d)
       (canvas_width c) (canvas_height c) (bitmap c)
   \<and> drawShape B c (d\<lparr>isFilled := f\<rparr>) = drawShape B c d
   \<and> (shape_type d = rect \<longrightarrow>
        vertices (shapeOutline d) = spec_box_corners (startPoint d) (endPoint d))
   \<and> (shape_type d = circle \<longrightarrow>
        shapeOutline d = PathOutline [Arc (px (startPoint d)) (py (startPoint d))
           (sqrt ((px (endPoint d) - px (startPoint d))\<^sup>2 + (py (endPoint d) - py (startPoint d))\<^sup>2))
           0 (2 * pi)])
   \<and> (shape_type d = triangle \<longrightarrow>
        shapeOutline d = PathOutline
           [MoveTo ((px (startPoint d) + px (endPoint d)) / 2) (py (startPoint d)),
            LineTo (px (startPoint d)) (py (endPoint d)),
            LineTo (px (endPoint d)) (py (endPoint d)),
            ClosePath])
   \<and> (shape_type d = triangle \<and> py (startPoint d) \<le> py (endPoint d) \<longrightarrow>
        vertices (shapeOutline d) = spec_triangle_corners (startPoint d) (endPoint d))"
  using drawShape_strokes[of B c d] drawShape_isFilled[where B = B and c = c and d = d and f = f] rect_corners[of d]
    circle_outline[of d] triangle_outline[of d] triangle_corners[of d]
  by blast

theorem shape_outlines_witness:
  "vertices (shapeOutline (sampleShape rect 50 40 10 10)) = {(10, 10), (50, 10), (50, 40), (10, 40)}
   \<and> shapeOutline (sampleShape circle 100 100 103 104) = PathOutline [Arc 100 100 5 0 (2 * pi)]
   \<and> shapeOutline (sampleShape triangle 10 0 0 10)
       = PathOutline [MoveTo 5 0, LineTo 10 10, LineTo 0 10, ClosePath]
   \<and> vertices (shapeOutline (sampleShape triangle 10 0 0 10)) = {(5, 0), (0, 10), (10, 10)}
   \<and> drawShape sampleBrowser (newCanvas 2 1) ((sampleShape rect 0 0 1 1)\<lparr>isFilled := True\<rparr>)
       = drawShape sampleBrowser (newCanvas 2 1) (sampleShape rect 0 0 1 1)"
proof -
  have r: "sqrt ((103 - 100)\<^sup>2 + (104 - 100)\<^sup>2) = (5 :: real)"
  proof -
    have "(103 - 100)\<^sup>2 + (104 - 100)\<^sup>2 = (5 :: real)\<^sup>2" by simp
    then have "sqrt ((103 - 100)\<^sup>2 + (104 - 100)\<^sup>2) = sqrt ((5 :: real)\<^sup>2)" by (simp only:)
    then show ?thesis by simp
  qed
  let ?B = sampleBrowser and ?c = "newCanvas 2 1"
  have t: "shape_type (sampleShape t x0 y0 x1 y1) = t" for t x0 y0 x1 y1
    by (simp add: sampleShape_def)
  note R = shape_outlines[of ?B ?c "sampleShape rect 50 40 10 10" True,
      THEN conjunct2, THEN conjunct2, THEN conjunct1, THEN mp, OF t]
  note C = shape_outlines[of ?B ?c "sampleShape circle 100 100 103 104" True,
      THEN conjunct2, THEN conjunct2, THEN conjunct2, THEN conjunct1, THEN mp, OF t]
  note T = shape_outlines[of ?B ?c "sampleShape triangle 10 0 0 10" True,
      THEN conjunct2, THEN conjunct2, THEN conjunct2, THEN conjunct2, THEN conjunct1, THEN mp, OF t]
  note F = shape_outlines[of ?B ?c "sampleShape rect 0 0 1 1" True,
      THEN conjunct2, THEN conjunct1]
  have 1: "vertices (shapeOutline (sampleShape rect 50 40 10 10)) = {(10, 10), (50, 10), (50, 40), (10, 40)}"
    unfolding R
    by (simp add: sampleShape_def spec_box_corners_def spec_left_def spec_right_def
        spec_top_def spec_bottom_def)
  have 2: "shapeOutline (sampleShape circle 100 100 103 104) = PathOutline [Arc 100 100 5 0 (2 * pi)]"
    unfolding C using r by (simp add: sampleShape_def)
  have 3: "shapeOutline (sampleShape triangle 10 0 0 10)
       = PathOutline [MoveTo 5 0, LineTo 10 10, LineTo 0 10, ClosePath]"
    unfolding T by (simp add: sampleShape_def)
  have 4: "vertices (shapeOutline (sampleShape triangle 10 0 0 10)) = {(5, 0), (0, 10), (10, 10)}"
    unfolding 3 by (simp add: insert_commute)
  from 1 2 3 4 F show ?thesis by (simp only: simp_thms)
qed

text \<open>
  Claim C9, at an input where the code departs from it.  A triangle is dragged upwards,
  from the start point \<open>(0, 10)\<close> to the end point \<open>(10, 0)\<close>.  The bounding box of the two
  points has its top edge at \<open>y = 0\<close> and its bottom edge at \<open>y = 10\<close>, so the triangle of
  the claim has its apex at \<open>(5, 0)\<close> and its base from \<open>(0, 10)\<close> to \<open>(10, 10)\<close>.  \<open>drawShape\<close>
  puts the vertex that its comment calls the top at \<open>(5, 10)\<close>, on the bottom edge, and the
  two that it calls bottom left and bottom right at \<open>(0, 0)\<close> and \<open>(10, 0)\<close>, on the top edge:
  the triangle stands on its apex.  The rectangle of the same two points has the corners
  of the bounding box.
\<close>
theorem triangle_upside_down:
  "shapeOutline (sampleShape triangle 0 10 10 0)
     = PathOutline [MoveTo 5 10, LineTo 0 0, LineTo 10 0, ClosePath]
   \<and> spec_top (startPoint (sampleShape triangle 0 10 10 0)) (endPoint (sampleShape triangle 0 10 10 0)) = 0
   \<and> spec_bottom (startPoint (sampleShape triangle 0 10 10 0)) (endPoint (sampleShape triangle 0 10 10 0)) = 10
   \<and> spec_triangle_corners (startPoint (sampleShape triangle 0 10 10 0))
         (endPoint (sampleShape triangle 0 10 10 0)) = {(5, 0), (0, 10), (10, 10)}
   \<and> vertices (shapeOutline (sampleShape triangle 0 10 10 0)) = {(5, 10), (0, 0), (10, 0)}
   \<and> vertices (shapeOutline (sampleShape triangle 0 10 10 0))
       \<noteq> spec_triangle_corners (startPoint (sampleShape triangle 0 10 10 0))
            (endPoint (sampleShape triangle 0 10 10 0))
   \<and> vertices (shapeOutline (sampleShape rect 0 10 10 0))
       = spec_box_corners (startPoint (sampleShape rect 0 10 10 0)) (endPoint (sampleShape rect 0 10 10 0))"
proof -
  have o: "shapeOutline (sampleShape triangle 0 10 10 0)
     = PathOutline [MoveTo 5 10, LineTo 0 0, LineTo 10 0, ClosePath]"
    by (simp add: shapeOutline_def Let_def sampleShape_def)
  have v: "vertices (shapeOutline (sampleShape triangle 0 10 10 0)) = {(5, 10), (0, 0), (10, 0)}"
    unfolding o by auto
  have s: "spec_triangle_corners (startPoint (sampleShape triangle 0 10 10 0))
         (endPoint (sampleShape triangle 0 10 10 0)) = {(5, 0), (0, 10), (10, 10)}"
    by (simp add: sampleShape_def spec_triangle_corners_def spec_left_def
        spec_right_def spec_top_def spec_bottom_def)
  have "(5, 10) \<in> vertices (shapeOutline (sampleShape triangle 0 10 10 0))"
    unfolding v by simp
  moreover have "(5, 10) \<notin> spec_triangle_corners (startPoint (sampleShape triangle 0 10 10 0))
            (endPoint (sampleShape triangle 0 10 10 0))"
    unfolding s by simp
  ultimately have ne: "vertices (shapeOutline (sampleShape triangle 0 10 10 0))
       \<noteq> spec_triangle_corners (startPoint (sampleShape triangle 0 10 10 0))
            (endPoint (sampleShape triangle 0 10 10 0))"
    by metis
  have t: "spec_top (startPoint (sampleShape triangle 0 10 10 0)) (endPoint (sampleShape triangle 0 10 10 0)) = 0"
    "spec_bottom (startPoint (sampleShape triangle 0 10 10 0)) (endPoint (sampleShape triangle 0 10 10 0)) = 10"
    by (simp_all add: sampleShape_def spec_top_def spec_bottom_def)
  have r: "vertices (shapeOutline (sampleShape rect 0 10 10 0))
       = spec_box_corners (startPoint (sampleShape rect 0 10 10 0)) (endPoint (sampleShape rect 0 10 10 0))"
    by (rule rect_corners) (simp add: sampleShape_def)
  from o t s v ne r show ?thesis by (simp only: simp_thms)
qed

subsection \<open>Replaying a history\<close>

lemma replay_append:
  "replay B (h @ h') c =
     (case replay B h c of
        None \<Rightarrow> None
      | Some (Normal, c') \<Rightarrow> replay B h' c'
      | Some (Thrown e, c') \<Rightarrow> Some (Thrown e, c'))"
  by (induction h arbitrary: c) (auto split: option.splits prod.splits completion.splits)

lemma fold_lineTo:
  "fold (\<lambda>p. ctx_lineTo (px p) (py p)) ps c = c\<lparr>path := path c @ map (\<lambda>p. LineTo (px p) (py p)) ps\<rparr>"
  by (induction ps arbitrary: c) (simp_all add: ctx_lineTo_def)

lemma drawStroke_size:
  "canvas_width (drawStroke B c d) = canvas_width c \<and> canvas_height (drawStroke B c d) = canvas_height c
   \<and> (keepsSize B \<longrightarrow> length (bitmap (drawStroke B c d)) = length (bitmap c))"
  by (simp add: drawStroke_def Let_def fold_lineTo ctx_stroke_def ctx_moveTo_def ctx_beginPath_def
      set_lineWidth_def set_strokeStyle_def keepsSize_def)

lemma drawShape_size:
  "canvas_width (drawShape B c d) = canvas_width c \<and> canvas_height (drawShape B c d) = canvas_height c
   \<and> (keepsSize B \<longrightarrow> length (bitmap (drawShape B c d)) = length (bitmap c))"
  by (cases "shape_type d")
    (simp_all add: drawShape_def Let_def ctx_stroke_def ctx_strokeRect_def
      ctx_arc_def ctx_moveTo_def ctx_lineTo_def ctx_closePath_def ctx_beginPath_def
      set_lineWidth_def set_strokeStyle_def keepsSize_def)

lemma wf_clearCanvas: "wf_canvas (clearCanvas c)"
  by (simp add: wf_canvas_def clearCanvas_def)

lemma applyAction_wf:
  assumes "keepsSize B" "wf_canvas c" "applyAction B a c = Some (k, c')"
  shows "wf_canvas c'"
proof (cases "action_type a = clear")
  case True
  with assms(3) show ?thesis by (auto simp: applyAction_def wf_clearCanvas)
next
  case False
  show ?thesis
  proof (cases "action_data a")
    case None
    with assms False show ?thesis by (simp add: applyAction_def)
  next
    case (Some d)
    show ?thesis
    proof (cases "action_type a")
      case stroke
      with assms Some drawStroke_size[of B c] show ?thesis
        by (cases d) (auto simp: applyAction_def wf_canvas_def)
    next
      case shape
      with assms Some drawShape_size[of B c] show ?thesis
        by (cases d)
          (auto simp: applyAction_def wf_canvas_def ctx_beginPath_def set_lineWidth_def
            set_strokeStyle_def)
    next
      case fill
      show ?thesis
      proof (cases d)
        case (FillData f)
        with assms(3) Some fill
        have "floodFill B c (px (point f)) (py (point f)) (fill_color f) = Some (k, c')"
          by (simp add: applyAction_def)
        from floodFill_frame[OF this] assms(2) show ?thesis
          by (metis Canvas.select_convs(1,2) Canvas.surjective Canvas.update_convs(3) wf_canvas_def)
      qed (use assms Some fill in \<open>auto simp: applyAction_def\<close>)
    next
      case clear
      with False show ?thesis by simp
    qed
  qed
qed

lemma replay_wf:
  assumes "keepsSize B" "wf_canvas c" "replay B h c = Some (k, c')"
  shows "wf_canvas c'"
  using assms(2,3)
proof (induction h arbitrary: c)
  case Nil
  then show ?case by simp
next
  case (Cons a h)
  from Cons.prems(2) obtain k1 c1 where a: "applyAction B a c = Some (k1, c1)"
    by (auto split: option.splits)
  have wf1: "wf_canvas c1" by (rule applyAction_wf[OF assms(1) Cons.prems(1) a])
  show ?case
  proof (cases k1)
    case Normal
    with Cons.prems(2) a have "replay B h c1 = Some (k, c')" by simp
    with wf1 show ?thesis by (rule Cons.IH)
  next
    case (Thrown e)
    with Cons.prems(2) a wf1 show ?thesis by simp
  qed
qed

subsection \<open>Applying an action a second time\<close>

lemma clearCanvas_twice: "clearCanvas (clearCanvas c) = clearCanvas c"
  by (simp add: clearCanvas_def)

lemma applyAction_twice:
  assumes rep: "clearOrFill B a" and wf: "action_type a = fill \<Longrightarrow> wf_canvas c"
    and ret: "applyAction B a c = Some (Normal, c')"
  shows "applyAction B a c' = Some (Normal, c')"
proof (cases "action_type a")
  case stroke
  with rep show ?thesis by (simp add: clearOrFill_def)
next
  case shape
  with rep show ?thesis by (simp add: clearOrFill_def)
next
  case clear
  with ret show ?thesis by (auto simp: applyAction_def clearCanvas_twice)
next
  case fill
  show ?thesis
  proof (cases "action_data a")
    case None
    with ret fill show ?thesis by (simp add: applyAction_def)
  next
    case (Some d)
    show ?thesis
    proof (cases d)
      case (FillData f)
      with rep fill Some have b: "byteColour B (fill_color f)" by (simp add: clearOrFill_def)
      from ret fill Some FillData
      have "floodFill B c (px (point f)) (py (point f)) (fill_color f) = Some (Normal, c')"
        by (simp add: applyAction_def)
      from floodFill_idem[OF wf[OF fill] b this] fill Some FillData show ?thesis
        by (simp add: applyAction_def)
    qed (use ret fill Some in \<open>auto simp: applyAction_def\<close>)
  qed
qed

lemma redraw_twice:
  assumes rep: "clearOrFill B a"
  shows "redrawCanvas B (h @ [a, a]) c = redrawCanvas B (h @ [a]) c"
proof (cases "replay B h (clearCanvas c)")
  case None
  then show ?thesis by (simp add: redrawCanvas_def replay_append)
next
  case (Some r)
  obtain k c1 where r: "r = (k, c1)" by (cases r)
  show ?thesis
  proof (cases k)
    case (Thrown e)
    with Some r show ?thesis by (simp add: redrawCanvas_def replay_append)
  next
    case Normal
    note h = Some[unfolded r Normal]
    show ?thesis
    proof (cases "applyAction B a c1")
      case None
      with h show ?thesis by (simp add: redrawCanvas_def replay_append)
    next
      case (Some r2)
      obtain k2 c2 where r2: "r2 = (k2, c2)" by (cases r2)
      show ?thesis
      proof (cases k2)
        case (Thrown e)
        with h Some r2 show ?thesis by (simp add: redrawCanvas_def replay_append)
      next
        case n2: Normal
        have wf1: "wf_canvas c1" if "action_type a = fill"
        proof -
          from rep that have "keepsSize B" by (simp add: clearOrFill_def)
          then show ?thesis by (rule replay_wf[OF _ wf_clearCanvas h])
        qed
        have "applyAction B a c1 = Some (Normal, c2)" using Some r2 n2 by simp
        with rep wf1 have "applyAction B a c2 = Some (Normal, c2)"
          by (rule applyAction_twice)
        with h Some r2 n2 show ?thesis by (simp add: redrawCanvas_def replay_append)
      qed
    qed
  qed
qed

subsection \<open>The sample browser\<close>

lemma length_strokeBytes [simp]: "length (strokeBytes cov col W data) = length data"
  by (simp add: strokeBytes_def)

lemma keepsSize_sample: "keepsSize sampleBrowser"
  by (simp add: keepsSize_def sampleBrowser_def)

lemma strokeBytes_pixel:
  assumes "4 * n + 3 < length data"
  shows "pixelAt (strokeBytes cov col W data) (int (4 * n)) =
           (case sourceOver (cov (n mod W) (n div W)) col
                   (byteAt data (4 * n), byteAt data (4 * n + 1), byteAt data (4 * n + 2),
                    byteAt data (4 * n + 3)) of
              (r, g, b, a) \<Rightarrow> (Some (of_nat r), Some (of_nat g), Some (of_nat b), Some (of_nat a)))"
proof -
  have d: "Suc (4 * n) div 4 = n" "Suc (Suc (4 * n)) div 4 = n" "(4 * n + 3) div 4 = n"
    and m: "Suc (4 * n) mod 4 = 1" "Suc (Suc (4 * n)) mod 4 = 2" "(4 * n + 3) mod 4 = 3"
    by presburger+
  have n: "nat (int (4 * n) + 1) = 4 * n + 1" "nat (int (4 * n) + 2) = 4 * n + 2"
    "nat (int (4 * n) + 3) = 4 * n + 3" "nat (int (4 * n)) = 4 * n"
    by simp_all
  have i: "4 * n < length data" "4 * n + 1 < length data" "4 * n + 2 < length data"
    using assms by simp_all
  obtain r g b a where so: "sourceOver (cov (n mod W) (n div W)) col
                   (byteAt data (4 * n), byteAt data (4 * n + 1), byteAt data (4 * n + 2),
                    byteAt data (4 * n + 3)) = (r, g, b, a)"
    by (metis prod_cases4)
  have 0: "strokeBytes cov col W data ! (4 * n) = of_nat r"
    using i so by (simp add: strokeBytes_def Let_def)
  have 1: "strokeBytes cov col W data ! (4 * n + 1) = of_nat g"
    using i so by (simp add: strokeBytes_def Let_def d m)
  have 2: "strokeBytes cov col W data ! (4 * n + 2) = of_nat b"
    using i so by (simp add: strokeBytes_def Let_def d m)
  have 3: "strokeBytes cov col W data ! (4 * n + 3) = of_nat a"
    using assms so by (simp add: strokeBytes_def Let_def d m)
  have r: "rd (strokeBytes cov col W data) (int (4 * n)) = Some (of_nat r)"
    "rd (strokeBytes cov col W data) (int (4 * n) + 1) = Some (of_nat g)"
    "rd (strokeBytes cov col W data) (int (4 * n) + 2) = Some (of_nat b)"
    "rd (strokeBytes cov col W data) (int (4 * n) + 3) = Some (of_nat a)"
    unfolding rd_def n 0 1 2 3 using assms i by simp_all
  show ?thesis
    unfolding pixelAt_def r so prod.case ..
qed

lemma pixelAt_bytes:
  assumes "4 * n + 3 < length data"
  shows "pixelAt data (int (4 * n)) =
           (Some (of_nat (byteAt data (4 * n))), Some (of_nat (byteAt data (4 * n + 1))),
            Some (of_nat (byteAt data (4 * n + 2))), Some (of_nat (byteAt data (4 * n + 3))))"
proof -
  have n: "nat (int (4 * n) + 1) = 4 * n + 1" "nat (int (4 * n) + 2) = 4 * n + 2"
    "nat (int (4 * n) + 3) = 4 * n + 3" "nat (int (4 * n)) = 4 * n"
    by simp_all
  have b: "of_nat (byteAt data i) = data ! i" if "i < length data" for i
    using that by (simp add: byteAt_def)
  have i: "4 * n < length data" "4 * n + 1 < length data" "4 * n + 2 < length data"
    using assms by simp_all
  have r: "rd data (int (4 * n)) = Some (data ! (4 * n))"
    "rd data (int (4 * n) + 1) = Some (data ! (4 * n + 1))"
    "rd data (int (4 * n) + 2) = Some (data ! (4 * n + 2))"
    "rd data (int (4 * n) + 3) = Some (data ! (4 * n + 3))"
    unfolding rd_def n using assms i by simp_all
  show ?thesis
    unfolding pixelAt_def r b[OF i(1)] b[OF i(2)] b[OF i(3)] b[OF assms] ..
qed

lemma pixel_index:
  assumes "inside (int W) (int H) q"
  shows "posOf (int W) q = int (4 * (nat (snd q) * W + nat (fst q)))"
    and "(nat (snd q) * W + nat (fst q)) mod W = nat (fst q)"
    and "(nat (snd q) * W + nat (fst q)) div W = nat (snd q)"
    and "4 * (nat (snd q) * W + nat (fst q)) + 3 < 4 * W * H"
proof -
  from assms have c: "0 \<le> fst q" "fst q < int W" "0 \<le> snd q" "snd q < int H"
    by (auto simp: inside_def)
  then show "posOf (int W) q = int (4 * (nat (snd q) * W + nat (fst q)))"
    by (simp add: posOf_def algebra_simps)
  from c have x: "nat (fst q) < W" by simp
  then show "(nat (snd q) * W + nat (fst q)) mod W = nat (fst q)" by simp
  from x show "(nat (snd q) * W + nat (fst q)) div W = nat (snd q)" by simp
  from c have y: "nat (snd q) < H" by simp
  then have "nat (snd q) + 1 \<le> H" by simp
  then have "(nat (snd q) + 1) * W \<le> H * W" by (rule mult_le_mono1)
  with x have "nat (snd q) * W + nat (fst q) < W * H" by (simp add: algebra_simps)
  then show "4 * (nat (snd q) * W + nat (fst q)) + 3 < 4 * W * H" by simp
qed

lemma subsamples_square:
  assumes "p \<in> set (subsamples x y)"
  shows "p \<in> pixelSquare (int x, int y)"
  using assms by (auto simp: subsamples_def pixelSquare_def)

lemma length_subsamples: "length (subsamples x y) = 16"
  by (simp add: subsamples_def length_concat comp_def sum_list_triv)

lemma sourceOver_full: "sourceOver 16 (r, g, b) old = (r, g, b, 255)"
proof -
  have "(2 * (s * 255 * 16) + 4080) div 8160 = s" for s :: nat by simp
  then show ?thesis by (cases old) (simp add: sourceOver_def Let_def)
qed

lemma sourceOver_none: "sourceOver 0 col old = old"
  by (cases col; cases old) (simp add: sourceOver_def)

lemma coverage_full:
  assumes "\<forall>p \<in> pixelSquare (int x, int y). inStroke pen ol p"
  shows "coverage pen ol x y = 16"
proof -
  have "filter (inStroke pen ol) (subsamples x y) = subsamples x y"
    using assms by (auto intro!: filter_True dest: subsamples_square)
  then show ?thesis by (simp add: coverage_def length_subsamples)
qed

lemma coverage_none:
  assumes "\<forall>p \<in> pixelSquare (int x, int y). \<not> inStroke pen ol p"
  shows "coverage pen ol x y = 0"
proof -
  have "filter (inStroke pen ol) (subsamples x y) = []"
    using assms by (auto simp: filter_empty_conv dest: subsamples_square)
  then show ?thesis by (simp add: coverage_def)
qed

lemma sample_stroke_pixel:
  assumes len: "length data = 4 * W * H" and q: "inside (int W) (int H) q"
  shows "pixelAt (strokeOutline sampleBrowser pen ol W H data) (posOf (int W) q) =
           (case sourceOver (coverage pen ol (nat (fst q)) (nat (snd q))) (penColour pen)
                   (let n = nat (snd q) * W + nat (fst q)
                    in (byteAt data (4 * n), byteAt data (4 * n + 1), byteAt data (4 * n + 2),
                        byteAt data (4 * n + 3))) of
              (r, g, b, a) \<Rightarrow> (Some (of_nat r), Some (of_nat g), Some (of_nat b), Some (of_nat a)))"
proof -
  note ix = pixel_index[OF q]
  from ix(4) len have l: "4 * (nat (snd q) * W + nat (fst q)) + 3 < length data" by simp
  have s: "strokeOutline sampleBrowser pen ol W H data
             = strokeBytes (coverage pen ol) (penColour pen) W data"
    by (simp add: sampleBrowser_def)
  show ?thesis
    unfolding s ix(1) Let_def
    using strokeBytes_pixel[OF l, of "coverage pen ol" "penColour pen" W]
    by (simp only: ix(2,3))
qed

lemma strokesRects_sample: "strokesRects sampleBrowser"
  unfolding strokesRects_def
proof (intro conjI allI impI)
  fix s assume "hexColour s \<noteq> None"
  then show "validColor sampleBrowser s" by (simp add: sampleBrowser_def)
next
  fix pen :: Pen and x y w h :: real and W H :: nat and data :: "byte list" and q :: "int \<times> int"
  assume a: "0 < pen_lineWidth pen \<and> length data = 4 * W * H \<and> inside (int W) (int H) q"
  then have len: "length data = 4 * W * H" and q: "inside (int W) (int H) q" by simp_all
  from q have "0 \<le> fst q" "0 \<le> snd q" by (simp_all add: inside_def)
  then have "int (nat (fst q)) = fst q" "int (nat (snd q)) = snd q" by simp_all
  then have sq: "pixelSquare (int (nat (fst q)), int (nat (snd q))) = pixelSquare q"
    by (simp only: prod.collapse)
  note ix = pixel_index[OF q]
  from ix(4) len have l: "4 * (nat (snd q) * W + nat (fst q)) + 3 < length data" by simp
  {
    assume "\<forall>p \<in> pixelSquare q. \<not> strokedRect pen x y w h p"
    then have "coverage pen (RectOutline x y w h) (nat (fst q)) (nat (snd q)) = 0"
      by (intro coverage_none) (simp only: sq, simp add: inStroke_def)
    then show "pixelAt (strokeOutline sampleBrowser pen (RectOutline x y w h) W H data) (posOf (int W) q)
                = pixelAt data (posOf (int W) q)"
      unfolding sample_stroke_pixel[OF len q]
      by (simp only: sourceOver_none Let_def ix(1) pixelAt_bytes[OF l] prod.case)
  }
  {
    fix r g b :: byte
    assume "\<forall>p \<in> pixelSquare q. strokedRect pen x y w h p"
      and c: "hexColour (pen_strokeStyle pen) = Some (r, g, b)"
    then have "coverage pen (RectOutline x y w h) (nat (fst q)) (nat (snd q)) = 16"
      by (intro coverage_full) (simp only: sq, simp add: inStroke_def)
    then show "pixelAt (strokeOutline sampleBrowser pen (RectOutline x y w h) W H data) (posOf (int W) q)
                = (Some r, Some g, Some b, Some 255)"
      unfolding sample_stroke_pixel[OF len q]
      by (simp add: sourceOver_full Let_def penColour_def c)
  }
qed

subsection \<open>Two rectangles on the sample browser\<close>

lemma square_bounds:
  fixes u :: real
  assumes "0 \<le> u" "u \<le> 1"
  shows "(u - 4)\<^sup>2 \<le> 16" "9 \<le> (u - 4)\<^sup>2" "9 \<le> (u - 12)\<^sup>2"
proof -
  have "\<bar>u - 4\<bar> \<le> \<bar>4 :: real\<bar>" using assms by simp
  then have "(u - 4)\<^sup>2 \<le> 4\<^sup>2" by (simp only: abs_le_square_iff)
  then show "(u - 4)\<^sup>2 \<le> 16" by simp
  have "\<bar>3 :: real\<bar> \<le> \<bar>u - 4\<bar>" using assms by simp
  then have "3\<^sup>2 \<le> (u - 4)\<^sup>2" by (simp only: abs_le_square_iff)
  then show "9 \<le> (u - 4)\<^sup>2" by simp
  have "\<bar>3 :: real\<bar> \<le> \<bar>u - 12\<bar>" using assms by simp
  then have "3\<^sup>2 \<le> (u - 12)\<^sup>2" by (simp only: abs_le_square_iff)
  then show "9 \<le> (u - 12)\<^sup>2" by simp
qed

lemma wide_rect_corner:
  assumes p: "p \<in> pixelSquare (0, 0)"
  shows "inMiter 4 (4, 12) (4, 4) (12, 4) p"
    and "\<not> inDisc 4 (4, 4) p" "\<not> inDisc 4 (12, 4) p" "\<not> inDisc 4 (12, 12) p" "\<not> inDisc 4 (4, 12) p"
    and "\<not> inBand 4 (4, 4) (12, 4) p" "\<not> inBand 4 (12, 4) (12, 12) p"
        "\<not> inBand 4 (12, 12) (4, 12) p" "\<not> inBand 4 (4, 12) (4, 4) p"
proof -
  obtain u v where uv: "p = (u, v)" by (cases p)
  with p have b: "0 \<le> u" "u \<le> 1" "0 \<le> v" "v \<le> 1" by (simp_all add: pixelSquare_def)
  note su = square_bounds[OF b(1,2)] and sv = square_bounds[OF b(3,4)]
  have e: "(8 * u - 32)\<^sup>2 = 64 * (u - 4)\<^sup>2" "(8 * v - 32)\<^sup>2 = 64 * (v - 4)\<^sup>2"
    by (simp_all add: power2_eq_square algebra_simps)
  show "inMiter 4 (4, 12) (4, 4) (12, 4) p"
    using b su(1) sv(1) by (simp add: uv inMiter_def Let_def vsub_def dot_def cross_def e)
  show "\<not> inDisc 4 (4, 4) p" "\<not> inDisc 4 (12, 4) p" "\<not> inDisc 4 (12, 12) p" "\<not> inDisc 4 (4, 12) p"
    using su(2,3) sv(2,3)
    by (simp_all add: uv inDisc_def vsub_def dot_def power2_eq_square[symmetric])
  show "\<not> inBand 4 (4, 4) (12, 4) p" "\<not> inBand 4 (12, 4) (12, 12) p"
        "\<not> inBand 4 (12, 12) (4, 12) p" "\<not> inBand 4 (4, 12) (4, 4) p"
    using b by (simp_all add: uv inBand_def Let_def vsub_def dot_def)
qed

lemma wide_rect_miter:
  assumes "pen_lineWidth pen = 8" "pen_lineJoin pen = ''miter''" "p \<in> pixelSquare (0, 0)"
  shows "strokedRect pen 4 4 8 8 p"
  using wide_rect_corner(1)[OF assms(3)]
  by (simp add: strokedRect_def strokedPath_def Let_def inJoin_def withinMiterLimit_def
      vsub_def dot_def assms(1,2))

lemma wide_rect_round:
  assumes "pen_lineWidth pen = 8" "pen_lineJoin pen = ''round''" "p \<in> pixelSquare (0, 0)"
  shows "\<not> strokedRect pen 4 4 8 8 p"
  using wide_rect_corner(2-)[OF assms(3)]
  by (simp add: strokedRect_def strokedPath_def Let_def inJoin_def assms(1,2))

lemma drawShape_pen:
  "lineCap (drawShape B c d) = lineCap c \<and> lineJoin (drawShape B c d) = lineJoin c
   \<and> strokeStyle (drawShape B c d) = (if validColor B (shape_color d) then shape_color d else strokeStyle c)
   \<and> lineWidth (drawShape B c d) = (if 0 < shape_width d then shape_width d else lineWidth c)"
  by (cases "shape_type d")
    (simp_all add: drawShape_def Let_def ctx_stroke_def ctx_strokeRect_def
      ctx_arc_def ctx_moveTo_def ctx_lineTo_def ctx_closePath_def ctx_beginPath_def
      set_lineWidth_def set_strokeStyle_def)

lemma drawStroke_round:
  assumes "2 \<le> length (points d)"
  shows "lineCap (drawStroke B c d) = ''round'' \<and> lineJoin (drawStroke B c d) = ''round''"
  using assms
  by (simp add: drawStroke_def Let_def fold_lineTo ctx_stroke_def ctx_moveTo_def ctx_beginPath_def
      set_lineWidth_def set_strokeStyle_def)

lemma hex_red: "hexColour ''#ff0000'' = Some (255, 0, 0)"
  by (simp add: hexColour_def hexByte_def hexDigit_def upt_rec)

lemma wide_rect_on_blank:
  assumes B: "strokesRects B" and W: "0 < W" "0 < H"
    and c: "canvas_width c = W" "canvas_height c = H" "bitmap c = replicate (4 * W * H) 0"
  shows "lineJoin c = ''miter'' \<Longrightarrow>
           pixelAt (bitmap (drawShape B c (sampleShape rect 4 4 12 12\<lparr>shape_width := 8\<rparr>))) 0
             = (Some 255, Some 0, Some 0, Some 255)"
    and "lineJoin c = ''round'' \<Longrightarrow>
           pixelAt (bitmap (drawShape B c (sampleShape rect 4 4 12 12\<lparr>shape_width := 8\<rparr>))) 0
             = (Some 0, Some 0, Some 0, Some 0)"
proof -
  let ?d = "sampleShape rect 4 4 12 12\<lparr>shape_width := 8\<rparr>"
  let ?pen = "penOf (drawShape B c ?d)"
  from B have v: "validColor B ''#ff0000''"
    by (simp add: strokesRects_def hex_red)
  have o: "shapeOutline ?d = RectOutline 4 4 8 8"
    by (simp add: shapeOutline_def sampleShape_def)
  have pen: "pen_lineWidth ?pen = 8" "pen_strokeStyle ?pen = ''#ff0000''" "pen_lineJoin ?pen = lineJoin c"
    using v by (simp_all add: penOf_def drawShape_pen sampleShape_def)
  have bm: "bitmap (drawShape B c ?d) = strokeOutline B ?pen (RectOutline 4 4 8 8) W H (replicate (4 * W * H) 0)"
    by (simp only: drawShape_strokes o c)
  have q: "inside (int W) (int H) (0, 0)" using W by (simp add: inside_def)
  have p0: "posOf (int W) (0, 0) = 0" by (simp add: posOf_def)
  have z: "pixelAt (replicate (4 * W * H) 0) 0 = (Some 0, Some 0, Some 0, Some 0)"
  proof -
    from W obtain W' H' where "W = Suc W'" "H = Suc H'"
      by (metis Suc_pred)
    then have n: "0 < 4 * W * H" "Suc 0 < 4 * W * H" "2 < 4 * W * H" "3 < 4 * W * H" by simp_all
    then have "4 * 0 + 3 < length (replicate (4 * W * H) (0 :: byte))" by simp
    from pixelAt_bytes[OF this] n show ?thesis by (simp add: byteAt_def)
  qed
  from B have R: "\<And>pen x y w h W H data q.
         0 < pen_lineWidth pen \<Longrightarrow> length data = 4 * W * H \<Longrightarrow> inside (int W) (int H) q \<Longrightarrow>
           ((\<forall>p \<in> pixelSquare q. \<not> strokedRect pen x y w h p) \<longrightarrow>
              pixelAt (strokeOutline B pen (RectOutline x y w h) W H data) (posOf (int W) q)
                = pixelAt data (posOf (int W) q))
         \<and> ((\<forall>p \<in> pixelSquare q. strokedRect pen x y w h p) \<longrightarrow>
              (\<forall>r g b. hexColour (pen_strokeStyle pen) = Some (r, g, b) \<longrightarrow>
                 pixelAt (strokeOutline B pen (RectOutline x y w h) W H data) (posOf (int W) q)
                   = (Some r, Some g, Some b, Some 255)))"
    unfolding strokesRects_def by blast
  have lw: "0 < pen_lineWidth ?pen" by (simp add: pen)
  note R0 = R[OF lw _ q, of "replicate (4 * W * H) 0" 4 4 8 8, unfolded p0, simplified]
  {
    assume j: "lineJoin c = ''miter''"
    have "\<forall>p \<in> pixelSquare (0, 0). strokedRect ?pen 4 4 8 8 p"
      using wide_rect_miter[of ?pen] pen j by simp
    with R0 pen(2) hex_red
    show "pixelAt (bitmap (drawShape B c ?d)) 0 = (Some 255, Some 0, Some 0, Some 255)"
      unfolding bm by simp
  }
  {
    assume j: "lineJoin c = ''round''"
    have "\<forall>p \<in> pixelSquare (0, 0). \<not> strokedRect ?pen 4 4 8 8 p"
      using wide_rect_round[of ?pen] pen j by simp
    with R0 z
    show "pixelAt (bitmap (drawShape B c ?d)) 0 = (Some 0, Some 0, Some 0, Some 0)"
      unfolding bm by simp
  }
qed

lemma thin_rect_coverage:
  assumes "pen_lineWidth pen = 1" "pen_lineJoin pen = ''miter''"
  shows "coverage pen (RectOutline 1 1 2 2) 1 0 = 8"
  by (simp add: coverage_def subsamples_def inStroke_def strokedRect_def strokedPath_def Let_def
      inJoin_def withinMiterLimit_def inMiter_def inBand_def vsub_def dot_def cross_def assms upt_rec
      power2_eq_square)

lemma byteAt_pixel:
  assumes "pixelAt data (int (4 * n)) = (Some r, Some g, Some b, Some a)"
  shows "byteAt data (4 * n) = unat r" "byteAt data (4 * n + 1) = unat g"
    "byteAt data (4 * n + 2) = unat b" "byteAt data (4 * n + 3) = unat a"
proof -
  have n: "nat (int (4 * n) + 1) = 4 * n + 1" "nat (int (4 * n) + 2) = 4 * n + 2"
    "nat (int (4 * n) + 3) = 4 * n + 3" "nat (int (4 * n)) = 4 * n"
    by simp_all
  from assms have r: "rd data (int (4 * n)) = Some r" "rd data (int (4 * n) + 1) = Some g"
    "rd data (int (4 * n) + 2) = Some b" "rd data (int (4 * n) + 3) = Some a"
    by (simp_all add: pixelAt_def)
  from r(1) show "byteAt data (4 * n) = unat r"
    unfolding rd_def n by (auto simp: byteAt_def split: if_splits)
  from r(2) show "byteAt data (4 * n + 1) = unat g"
    unfolding rd_def n by (auto simp: byteAt_def split: if_splits)
  from r(3) show "byteAt data (4 * n + 2) = unat b"
    unfolding rd_def n by (auto simp: byteAt_def split: if_splits)
  from r(4) show "byteAt data (4 * n + 3) = unat a"
    unfolding rd_def n by (auto simp: byteAt_def split: if_splits)
qed

lemma thin_rect_stroke:
  assumes c: "canvas_width c = 4" "canvas_height c = 4" "length (bitmap c) = 64"
    "lineJoin c = ''miter''"
    and old: "pixelAt (bitmap c) 4 = (Some r, Some g, Some b, Some a)"
  shows "pixelAt (bitmap (drawShape sampleBrowser c (sampleShape rect 1 1 3 3\<lparr>shape_width := 1\<rparr>))) 4
           = (case sourceOver 8 (255, 0, 0) (unat r, unat g, unat b, unat a) of
                (r', g', b', a') \<Rightarrow> (Some (of_nat r'), Some (of_nat g'), Some (of_nat b'), Some (of_nat a')))"
proof -
  let ?d = "sampleShape rect 1 1 3 3\<lparr>shape_width := 1\<rparr>"
  let ?pen = "penOf (drawShape sampleBrowser c ?d)"
  have v: "validColor sampleBrowser ''#ff0000''"
    by (simp add: sampleBrowser_def hex_red)
  have o: "shapeOutline ?d = RectOutline 1 1 2 2"
    by (simp add: shapeOutline_def sampleShape_def)
  have pen: "pen_lineWidth ?pen = 1" "pen_strokeStyle ?pen = ''#ff0000''" "pen_lineJoin ?pen = ''miter''"
    using v c(4) by (simp_all add: penOf_def drawShape_pen sampleShape_def)
  have col: "penColour ?pen = (255, 0, 0)"
    by (simp add: penColour_def pen(2) hex_red)
  have bm: "bitmap (drawShape sampleBrowser c ?d)
              = strokeOutline sampleBrowser ?pen (RectOutline 1 1 2 2) 4 4 (bitmap c)"
    by (simp only: drawShape_strokes o c)
  have q: "inside (int 4) (int 4) (1, 0)" by (simp add: inside_def)
  have len: "length (bitmap c) = 4 * 4 * 4" using c(3) by simp
  have p: "posOf (int 4) (1, 0) = 4" by (simp add: posOf_def)
  from old have old': "pixelAt (bitmap c) (int (4 * 1)) = (Some r, Some g, Some b, Some a)" by simp
  note bs = byteAt_pixel[OF old', simplified]
  show ?thesis
    unfolding bm
    using sample_stroke_pixel[OF len q, of ?pen "RectOutline 1 1 2 2", unfolded p]
    by (simp add: thin_rect_coverage[OF pen(1,3), unfolded One_nat_def] col bs Let_def)
qed

lemma thin_rect_once:
  "pixelAt (bitmap (drawShape sampleBrowser (clearCanvas (newCanvas 4 4))
       (sampleShape rect 1 1 3 3\<lparr>shape_width := 1\<rparr>))) 4
     = (Some 255, Some 0, Some 0, Some 128)"
proof -
  have z: "pixelAt (bitmap (clearCanvas (newCanvas 4 4))) 4 = (Some 0, Some 0, Some 0, Some 0)"
    by (simp add: clearCanvas_def newCanvas_def pixelAt_def rd_def)
  show ?thesis
    using thin_rect_stroke[OF _ _ _ _ z]
    by (simp add: clearCanvas_def newCanvas_def sourceOver_def Let_def)
qed

lemma thin_rect_twice:
  "pixelAt (bitmap (drawShape sampleBrowser
       (drawShape sampleBrowser (clearCanvas (newCanvas 4 4)) (sampleShape rect 1 1 3 3\<lparr>shape_width := 1\<rparr>))
       (sampleShape rect 1 1 3 3\<lparr>shape_width := 1\<rparr>))) 4
     = (Some 255, Some 0, Some 0, Some 192)"
proof -
  let ?d = "sampleShape rect 1 1 3 3\<lparr>shape_width := 1\<rparr>"
  let ?c = "drawShape sampleBrowser (clearCanvas (newCanvas 4 4)) ?d"
  have c: "canvas_width ?c = 4" "canvas_height ?c = 4" "length (bitmap ?c) = 64" "lineJoin ?c = ''miter''"
    using drawShape_size[of sampleBrowser "clearCanvas (newCanvas 4 4)" ?d] keepsSize_sample
    by (simp_all add: drawShape_pen clearCanvas_def newCanvas_def)
  show ?thesis
    using thin_rect_stroke[OF c thin_rect_once]
    by (simp add: sourceOver_def Let_def)
qed

text \<open>
  Claim C1, as the code has it.  Redrawing a history that ends with the same action
  twice gives the same result (the same canvas, or no return, or the same exception) as
  redrawing it with the action once, for every history, when the action is a Clear or a
  Fill with a colour of three 8-bit channels.  For a Shape the claim fails: the code
  leaves the pixels of a shape to the browser's stroke, which composites the pen's colour
  onto every pixel that the outline covers partly, so the second stroke makes these
  pixels more opaque.  The counterexample below is a rectangle of width 1 from \<open>(1, 1)\<close> to
  \<open>(3, 3)\<close> on a canvas of 4 by 4 pixels: its upper edge covers one half of the pixel in
  column 1 of row 0.
\<close>
theorem redraw_idempotent:
  assumes "clearOrFill B a"
  shows "redrawCanvas B (h @ [a, a]) c = redrawCanvas B (h @ [a]) c"
  using assms by (rule redraw_twice)

theorem redraw_idempotent_witness:
  "redrawCanvas sampleBrowser ([rectOfWidth 1 1 1 3 3] @ [fillAt 2 2 ''#0000ff'', fillAt 2 2 ''#0000ff''])
        (newCanvas 4 4)
     = redrawCanvas sampleBrowser ([rectOfWidth 1 1 1 3 3] @ [fillAt 2 2 ''#0000ff'']) (newCanvas 4 4)
   \<and> redrawCanvas sampleBrowser ([rectOfWidth 1 1 1 3 3] @ [sampleAction clear 1, sampleAction clear 1])
        (newCanvas 4 4)
     = redrawCanvas sampleBrowser ([rectOfWidth 1 1 1 3 3] @ [sampleAction clear 1]) (newCanvas 4 4)"
proof -
  have h: "hexColour ''#0000ff'' = Some (0, 0, 255)"
    by (simp add: hexColour_def hexByte_def hexDigit_def upt_rec)
  have "computedColor sampleBrowser ''#0000ff'' = ''rgb(0, 0, 255)''"
    by (simp add: sampleBrowser_def h rgbString_def decimal.simps)
  then have b: "byteColour sampleBrowser ''#0000ff''"
    by (simp add: byteColour_def matchDigits_def isDigit_def Number_def)
  have 1: "clearOrFill sampleBrowser (fillAt 2 2 ''#0000ff'')"
    using b by (simp add: clearOrFill_def fillAt_def keepsSize_sample)
  have 2: "clearOrFill sampleBrowser (sampleAction clear 1)"
    by (simp add: clearOrFill_def sampleAction_def)
  show ?thesis
    using redraw_idempotent[OF 1, of "[rectOfWidth 1 1 1 3 3]" "newCanvas 4 4"]
      redraw_idempotent[OF 2, of "[rectOfWidth 1 1 1 3 3]" "newCanvas 4 4"]
    by (simp only: simp_thms)
qed

theorem redraw_twice_counterexample:
  "redrawCanvas sampleBrowser ([] @ [rectOfWidth 1 1 1 3 3, rectOfWidth 1 1 1 3 3]) (newCanvas 4 4)
   \<noteq> redrawCanvas sampleBrowser ([] @ [rectOfWidth 1 1 1 3 3]) (newCanvas 4 4)"
proof -
  let ?d = "sampleShape rect 1 1 3 3\<lparr>shape_width := 1\<rparr>"
  let ?c = "drawShape sampleBrowser (clearCanvas (newCanvas 4 4)) ?d"
  have 1: "redrawCanvas sampleBrowser ([] @ [rectOfWidth 1 1 1 3 3]) (newCanvas 4 4) = Some (Normal, ?c)"
    by (simp add: redrawCanvas_def applyAction_def rectOfWidth_def sampleShape_def)
  have 2: "redrawCanvas sampleBrowser ([] @ [rectOfWidth 1 1 1 3 3, rectOfWidth 1 1 1 3 3]) (newCanvas 4 4)
             = Some (Normal, drawShape sampleBrowser ?c ?d)"
    by (simp add: redrawCanvas_def applyAction_def rectOfWidth_def sampleShape_def)
  have "drawShape sampleBrowser ?c ?d \<noteq> ?c"
    using thin_rect_once thin_rect_twice by auto
  then show ?thesis unfolding 1 2 by simp
qed

lemma redraw_stroke_clear_rect:
  "redrawCanvas B [strokeFromTo 1 1 9 9, sampleAction clear 1, rectOfWidth 8 4 4 12 12] c
     = Some (Normal, drawShape B
         (clearCanvas (drawStroke B (clearCanvas c)
            \<lparr>points = [\<lparr>px = 1, py = 1\<rparr>, \<lparr>px = 9, py = 9\<rparr>],
              stroke_color = ''#00ff00'', stroke_width = 4, tool = brush\<rparr>))
         (sampleShape rect 4 4 12 12\<lparr>shape_width := 8\<rparr>))"
  by (simp add: redrawCanvas_def applyAction_def strokeFromTo_def sampleAction_def rectOfWidth_def
      sampleShape_def)

lemma redraw_rect:
  "redrawCanvas B [rectOfWidth 8 4 4 12 12] c
     = Some (Normal, drawShape B (clearCanvas c) (sampleShape rect 4 4 12 12\<lparr>shape_width := 8\<rparr>))"
  by (simp add: redrawCanvas_def applyAction_def rectOfWidth_def sampleShape_def)

text \<open>
  Claim C8, at an input where the code departs from it.  \<open>drawStroke\<close> sets the line cap
  and the line join of the context to round, a Clear resets the bitmap only, and
  \<open>drawShape\<close> sets neither.  On a new canvas, the rectangle of the history stroke, Clear,
  rectangle is therefore stroked with round joins, and the rectangle of the history
  that holds it alone with the mitred joins of a new context.  For the rectangle from
  \<open>(4, 4)\<close> to \<open>(12, 12)\<close> of width 8 the pixel \<open>(0, 0)\<close> lies inside the mitred corner and
  outside the rounded one: on every browser that strokes rectangles, it is opaque red
  after the redraw of the rectangle alone and transparent after the redraw of the stroke,
  the Clear and the rectangle.
\<close>
theorem clear_keeps_pen:
  assumes "strokesRects B" "0 < W" "0 < H"
  shows "\<exists>c1 c2.
           redrawCanvas B [strokeFromTo 1 1 9 9, sampleAction clear 1, rectOfWidth 8 4 4 12 12]
             (newCanvas W H) = Some (Normal, c1)
         \<and> redrawCanvas B [rectOfWidth 8 4 4 12 12] (newCanvas W H) = Some (Normal, c2)
         \<and> lineJoin c1 = ''round'' \<and> lineJoin c2 = ''miter''
         \<and> pixelAt (bitmap c1) 0 = (Some 0, Some 0, Some 0, Some 0)
         \<and> pixelAt (bitmap c2) 0 = (Some 255, Some 0, Some 0, Some 255)
         \<and> bitmap c1 \<noteq> bitmap c2"
proof -
  let ?s = "\<lparr>points = [\<lparr>px = 1, py = 1\<rparr>, \<lparr>px = 9, py = 9\<rparr>],
              stroke_color = ''#00ff00'', stroke_width = 4, tool = brush\<rparr>"
  let ?d = "sampleShape rect 4 4 12 12\<lparr>shape_width := 8\<rparr>"
  let ?a = "clearCanvas (drawStroke B (clearCanvas (newCanvas W H)) ?s)"
  let ?b = "clearCanvas (newCanvas W H)"
  have a: "canvas_width ?a = W" "canvas_height ?a = H" "bitmap ?a = replicate (4 * W * H) 0"
    "lineJoin ?a = ''round''"
    using drawStroke_size[of B "clearCanvas (newCanvas W H)" ?s]
      drawStroke_round[of ?s B "clearCanvas (newCanvas W H)"]
    by (simp_all add: clearCanvas_def newCanvas_def)
  have b: "canvas_width ?b = W" "canvas_height ?b = H" "bitmap ?b = replicate (4 * W * H) 0"
    "lineJoin ?b = ''miter''"
    by (simp_all add: clearCanvas_def newCanvas_def)
  note A = wide_rect_on_blank(2)[OF assms a(1-3) a(4)]
  note B = wide_rect_on_blank(1)[OF assms b(1-3) b(4)]
  have ja: "lineJoin (drawShape B ?a ?d) = ''round''" by (simp add: drawShape_pen a(4))
  have jb: "lineJoin (drawShape B ?b ?d) = ''miter''" by (simp add: drawShape_pen b(4))
  have ne: "bitmap (drawShape B ?a ?d) \<noteq> bitmap (drawShape B ?b ?d)"
    using A B by auto
  show ?thesis
    using A B ja jb ne
    by (intro exI[of _ "drawShape B ?a ?d"] exI[of _ "drawShape B ?b ?d"])
       (simp only: redraw_stroke_clear_rect redraw_rect simp_thms)
qed

theorem clear_keeps_pen_witness:
  "strokesRects sampleBrowser
   \<and> (\<exists>c1 c2.
           redrawCanvas sampleBrowser [strokeFromTo 1 1 9 9, sampleAction clear 1, rectOfWidth 8 4 4 12 12]
             (newCanvas 16 16) = Some (Normal, c1)
         \<and> redrawCanvas sampleBrowser [rectOfWidth 8 4 4 12 12] (newCanvas 16 16) = Some (Normal, c2)
         \<and> lineJoin c1 = ''round'' \<and> lineJoin c2 = ''miter''
         \<and> pixelAt (bitmap c1) 0 = (Some 0, Some 0, Some 0, Some 0)
         \<and> pixelAt (bitmap c2) 0 = (Some 255, Some 0, Some 0, Some 255)
         \<and> bitmap c1 \<noteq> bitmap c2)"
  using clear_keeps_pen[OF strokesRects_sample, of 16 16] strokesRects_sample by simp

subsection \<open>What a Clear does keep\<close>

lemma applyAction_dims:
  assumes "applyAction B a c = Some (k, c')"
  shows "canvas_width c' = canvas_width c \<and> canvas_height c' = canvas_height c"
proof (cases "action_type a = clear")
  case True
  with assms show ?thesis by (auto simp: applyAction_def clearCanvas_def)
next
  case False
  show ?thesis
  proof (cases "action_data a")
    case None
    with assms False show ?thesis by (simp add: applyAction_def)
  next
    case (Some d)
    show ?thesis
    proof (cases "action_type a")
      case stroke
      with assms Some drawStroke_size[of B c] show ?thesis
        by (cases d) (auto simp: applyAction_def)
    next
      case shape
      with assms Some drawShape_size[of B c] show ?thesis
        by (cases d)
          (auto simp: applyAction_def ctx_beginPath_def set_lineWidth_def set_strokeStyle_def)
    next
      case fill
      show ?thesis
      proof (cases d)
        case (FillData f)
        with assms Some fill
        have "floodFill B c (px (point f)) (py (point f)) (fill_color f) = Some (k, c')"
          by (simp add: applyAction_def)
        from floodFill_frame[OF this] show ?thesis
          by (metis Canvas.select_convs(1,2) Canvas.surjective Canvas.update_convs(3))
      qed (use assms Some fill in \<open>auto simp: applyAction_def\<close>)
    next
      case clear
      with False show ?thesis by simp
    qed
  qed
qed

lemma replay_dims:
  assumes "replay B h c = Some (k, c')"
  shows "canvas_width c' = canvas_width c \<and> canvas_height c' = canvas_height c"
  using assms
proof (induction h arbitrary: c)
  case Nil
  then show ?case by simp
next
  case (Cons a h)
  from Cons.prems obtain k1 c1 where a: "applyAction B a c = Some (k1, c1)"
    by (auto split: option.splits)
  note d1 = applyAction_dims[OF a]
  show ?case
  proof (cases k1)
    case Normal
    with Cons.prems a have "replay B h c1 = Some (k, c')" by simp
    from Cons.IH[OF this] d1 show ?thesis by simp
  next
    case (Thrown e)
    with Cons.prems a d1 show ?thesis by simp
  qed
qed

lemma redraw_clear_blank:
  assumes "action_type a = clear" "redrawCanvas B (h1 @ [a]) c = Some (Normal, c')"
  shows "bitmap c' = replicate (4 * canvas_width c * canvas_height c) 0"
proof -
  from assms(2) obtain c1 where h: "replay B h1 (clearCanvas c) = Some (Normal, c1)"
    and a: "applyAction B a c1 = Some (Normal, c')"
    by (auto simp: redrawCanvas_def replay_append split: option.splits prod.splits completion.splits)
  from replay_dims[OF h] have "canvas_width c1 = canvas_width c" "canvas_height c1 = canvas_height c"
    by (simp_all add: clearCanvas_def)
  with a assms(1) show ?thesis by (auto simp: applyAction_def clearCanvas_def)
qed

lemma redraw_clear_continues:
  "redrawCanvas B (h1 @ a # h2) c =
     (case redrawCanvas B (h1 @ [a]) c of
        None \<Rightarrow> None
      | Some (Normal, c') \<Rightarrow> replay B h2 c'
      | Some (Thrown e, c') \<Rightarrow> Some (Thrown e, c'))"
proof -
  have "h1 @ a # h2 = (h1 @ [a]) @ h2" by simp
  then show ?thesis by (simp only: redrawCanvas_def replay_append[of B "h1 @ [a]" h2])
qed

text \<open>
  What a Clear does in a redraw.  A Clear discards nothing that follows it: the redraw of
  \<open>h1\<close>, the Clear and \<open>h2\<close> is the redraw of \<open>h1\<close> and the Clear followed by the replay of
  \<open>h2\<close> on the canvas that it left, and the bitmap of that canvas is blank (all bytes 0,
  four for each pixel of the canvas).
\<close>
theorem clear_resets_bitmap_only:
  assumes "action_type a = clear"
  shows "redrawCanvas B (h1 @ a # h2) c =
           (case redrawCanvas B (h1 @ [a]) c of
              None \<Rightarrow> None
            | Some (Normal, c') \<Rightarrow> replay B h2 c'
            | Some (Thrown e, c') \<Rightarrow> Some (Thrown e, c'))
       \<and> (redrawCanvas B (h1 @ [a]) c = Some (Normal, c')
            \<longrightarrow> bitmap c' = replicate (4 * canvas_width c * canvas_height c) 0)"
  using redraw_clear_continues[of B h1 a h2 c] redraw_clear_blank[OF assms, of B h1 c c']
  by blast

theorem clear_resets_bitmap_only_witness:
  "redrawCanvas sampleBrowser ([rectOfWidth 2 0 0 1 1] @ sampleAction clear 1 # [rectOfWidth 2 1 0 0 0]) (newCanvas 2 1)
     = (case redrawCanvas sampleBrowser ([rectOfWidth 2 0 0 1 1] @ [sampleAction clear 1]) (newCanvas 2 1) of
          None \<Rightarrow> None
        | Some (Normal, c') \<Rightarrow> replay sampleBrowser [rectOfWidth 2 1 0 0 0] c'
        | Some (Thrown e, c') \<Rightarrow> Some (Thrown e, c'))"
proof -
  have "action_type (sampleAction clear 1) = clear" by (simp add: sampleAction_def)
  from clear_resets_bitmap_only[OF this, of sampleBrowser "[rectOfWidth 2 0 0 1 1]" "[rectOfWidth 2 1 0 0 0]"
      "newCanvas 2 1" "newCanvas 2 1"]
  show ?thesis by (rule conjunct1)
qed

text \<open>
  What a Clear does on the server.  The server appends a Clear like any other action:
  below the capacity, the history of the room afterwards is the old history followed by
  the Clear, so no entry before it is dropped.
\<close>
theorem clear_is_appended:
  assumes "map_of rooms rid = Some room" "length (history room) < 500"
  shows "map_option history (map_of (fst (submit rid a rooms)) rid) = Some (history room @ [a])"
proof -
  from assms(2) have "length (history room) \<le> 500" by simp
  from addToHistory_room[OF assms(1) this, of a] assms(2) show ?thesis
    by (simp add: submit_def)
qed

theorem clear_is_appended_witness:
  "map_option history (map_of (fst (submit ''R'' (sampleAction clear 9) [(''R'', busyRoom)])) ''R'')
   = Some [sampleAction clear 1, sampleAction fill 2, sampleAction clear 9]"
  using clear_is_appended[of "[(''R'', busyRoom)]" "''R''" busyRoom "sampleAction clear 9"]
  by (simp add: busyRoom_def emptyRoom_def)

end
